theory Spec2Isabelle
  imports Complex_Main "HOL-Library.Word"
begin

section \<open>Values, options and requests\<close>

text \<open>
  JavaScript values as far as the client handles them: option values, parsed JSON and
  sequence tokens. A JS number is a \<open>real\<close> (IEEE rounding is not modelled); an absent
  or \<open>undefined\<close> property is \<open>None\<close> of an option type.
\<close>

datatype jsval =
    JNull
  | JBool bool
  | JNum real
  | JStr string
  | JArr "jsval list"
  | JObj "(string \<times> jsval) list"

text \<open>Decoded text is a list of Unicode code points; a line feed is code point 10.\<close>

type_synonym utext = "nat list"

datatype error =
    FetchError
  | HttpError nat string
  | BodyError
  | JsonError
  | TypeError
  | NoBody
  | ReadError
  | ParseError utext
  | HeartbeatTimeout real

text \<open>Truthiness of a value, as \<open>if (v)\<close> and \<open>!v\<close> test it.\<close>

fun truthy :: "jsval \<Rightarrow> bool" where
  "truthy JNull = False"
| "truthy (JBool b) = b"
| "truthy (JNum n) = (n \<noteq> 0)"
| "truthy (JStr s) = (s \<noteq> [])"
| "truthy (JArr xs) = True"
| "truthy (JObj kv) = True"

text \<open>
  \<open>change.seq\<close>: reading a property of \<open>null\<close> throws a TypeError, an object gives
  the property or \<open>undefined\<close>, every other JSON value gives \<open>undefined\<close>.
\<close>

fun prop_seq :: "jsval \<Rightarrow> error + jsval option" where
  "prop_seq JNull = Inl TypeError"
| "prop_seq (JObj kv) = Inr (map_of kv ''seq'')"
| "prop_seq v = Inr None"

text \<open>
  \<open>this.options\<close>: the option object without \<open>abortController\<close> and \<open>fetch\<close>, as the
  list of its entries in insertion order (\<open>Object.entries\<close>). A key that is absent or
  \<open>undefined\<close> is not in the list.
\<close>

type_synonym options = "(string \<times> jsval) list"

definition opt :: "options \<Rightarrow> string \<Rightarrow> jsval option" where
  "opt os k = map_of os k"

definition opt_truthy :: "options \<Rightarrow> string \<Rightarrow> bool" where
  "opt_truthy os k = (case opt os k of None \<Rightarrow> False | Some v \<Rightarrow> truthy v)"

definition isNormal :: "options \<Rightarrow> bool" where
  "isNormal os = (opt os ''feed'' = Some (JStr ''normal'') \<or> \<not> opt_truthy os ''feed'')"

definition isLongpoll :: "options \<Rightarrow> bool" where
  "isLongpoll os = (opt os ''feed'' = Some (JStr ''longpoll''))"

definition isContinuous :: "options \<Rightarrow> bool" where
  "isContinuous os = (opt os ''feed'' = Some (JStr ''continuous''))"

definition isEventsource :: "options \<Rightarrow> bool" where
  "isEventsource os = (opt os ''feed'' = Some (JStr ''eventsource''))"

subsection \<open>buildUrl\<close>

text \<open>
  \<open>buildUrl\<close> (lines 51 to 67 of \<open>CouchDBChangesStream.ts\<close>). Of the URL only the
  query is modelled, not the base URL, nor the headers that \<open>fetch\<close> is given.
  The query of the URL is the list of its parameters in order; a value stands for its
  \<open>toString()\<close> rendering. \<open>searchParams.set\<close> overwrites the first parameter of that
  name and deletes the others, or appends one when there is none.
\<close>

fun searchParams_set :: "string \<Rightarrow> jsval \<Rightarrow> (string \<times> jsval) list \<Rightarrow> (string \<times> jsval) list" where
  "searchParams_set k v [] = [(k, v)]"
| "searchParams_set k v ((k', v') # ps) =
     (if k' = k then (k, v) # filter (\<lambda>p. fst p \<noteq> k) ps
      else (k', v') # searchParams_set k v ps)"


definition in_query :: "string \<times> jsval \<Rightarrow> bool" where
  "in_query p =
     (snd p \<noteq> JStr [] \<and> fst p \<noteq> ''doc_ids'' \<and> fst p \<noteq> ''selector'' \<and> fst p \<noteq> ''live'')"

text \<open>\<open>value.toString()\<close> throws a TypeError on \<open>null\<close>.\<close>

definition buildUrl :: "options \<Rightarrow> jsval option \<Rightarrow> error + (string \<times> jsval) list" where
  "buildUrl os active =
     (let params = filter in_query os in
      if JNull \<in> snd ` set params then Inl TypeError
      else case active of
             None \<Rightarrow> Inr params
           | Some JNull \<Rightarrow> Inl TypeError
           | Some v \<Rightarrow> Inr (searchParams_set ''since'' v params))"

subsection \<open>Request body and method\<close>

text \<open>Lines 143 to 158.\<close>

datatype http_method = GET | POST

definition hasDocIds :: "options \<Rightarrow> bool" where
  "hasDocIds os = (case opt os ''doc_ids'' of Some (JArr xs) \<Rightarrow> xs \<noteq> [] | _ \<Rightarrow> False)"

text \<open>\<open>selector && typeof selector === "object"\<close>: an object or an array, empty or not.\<close>

definition hasSelector :: "options \<Rightarrow> bool" where
  "hasSelector os =
     (case opt os ''selector'' of Some (JObj kv) \<Rightarrow> True | Some (JArr xs) \<Rightarrow> True | _ \<Rightarrow> False)"

text \<open>The body is the object that \<open>JSON.stringify\<close> renders.\<close>

definition requestBody :: "options \<Rightarrow> jsval option" where
  "requestBody os =
     (if hasDocIds os then Some (JObj [(''doc_ids'', the (opt os ''doc_ids''))])
      else if hasSelector os then Some (JObj [(''selector'', the (opt os ''selector''))])
      else None)"

definition request_method :: "options \<Rightarrow> http_method" where
  "request_method os = (if requestBody os \<noteq> None then POST else GET)"

record request =
  req_method :: http_method
  req_query :: "(string \<times> jsval) list"
  req_body :: "jsval option"

subsection \<open>Heartbeat configuration\<close>

text \<open>Lines 84 and 85, and lines 116 to 121 of \<open>resetHeartbeat\<close>.\<close>

definition usesHeartbeat :: "options \<Rightarrow> bool" where
  "usesHeartbeat os =
     ((isContinuous os \<or> isEventsource os) \<and> opt os ''heartbeat'' \<noteq> Some (JNum 0))"

definition heartbeatInterval :: "options \<Rightarrow> real" where
  "heartbeatInterval os = (case opt os ''heartbeat'' of Some (JNum n) \<Rightarrow> n | _ \<Rightarrow> 60000)"

definition timeoutBuffer :: "options \<Rightarrow> real" where
  "timeoutBuffer os = max (heartbeatInterval os * (1 / 10)) 1000"

definition adjustedTimeout :: "options \<Rightarrow> real" where
  "adjustedTimeout os = heartbeatInterval os + timeoutBuffer os"

section \<open>Decoding and line handling\<close>

subsection \<open>The streaming UTF-8 decoder\<close>

text \<open>
  \<open>new TextDecoder()\<close> used with \<open>{stream: true}\<close>: the UTF-8 decoder of the Encoding
  standard, one byte at a time, keeping an unfinished character between calls. A
  malformed sequence gives U+FFFD, and a byte order mark at the start is dropped.
\<close>

record utf8 =
  code_point :: nat
  bytes_needed :: nat
  bytes_seen :: nat
  lower :: nat
  upper :: nat
  bom_seen :: bool

definition utf8_init :: utf8 where
  "utf8_init = \<lparr>code_point = 0, bytes_needed = 0, bytes_seen = 0,
                 lower = 0x80, upper = 0xBF, bom_seen = False\<rparr>"

definition utf8_reset :: "utf8 \<Rightarrow> utf8" where
  "utf8_reset d = d\<lparr>code_point := 0, bytes_needed := 0, bytes_seen := 0,
                     lower := 0x80, upper := 0xBF\<rparr>"

definition utf8_lead :: "utf8 \<Rightarrow> nat \<Rightarrow> utf8 \<times> utext" where
  "utf8_lead d b =
     (if b \<le> 0x7F then (d, [b])
      else if 0xC2 \<le> b \<and> b \<le> 0xDF then
        (d\<lparr>code_point := b mod 32, bytes_needed := 1\<rparr>, [])
      else if 0xE0 \<le> b \<and> b \<le> 0xEF then
        (d\<lparr>code_point := b mod 16, bytes_needed := 2,
            lower := (if b = 0xE0 then 0xA0 else 0x80),
            upper := (if b = 0xED then 0x9F else 0xBF)\<rparr>, [])
      else if 0xF0 \<le> b \<and> b \<le> 0xF4 then
        (d\<lparr>code_point := b mod 8, bytes_needed := 3,
            lower := (if b = 0xF0 then 0x90 else 0x80),
            upper := (if b = 0xF4 then 0x8F else 0xBF)\<rparr>, [])
      else (d, [0xFFFD]))"

definition utf8_byte :: "utf8 \<Rightarrow> nat \<Rightarrow> utf8 \<times> utext" where
  "utf8_byte d b =
     (if bytes_needed d = 0 then utf8_lead d b
      else if b < lower d \<or> upper d < b then
        (let (d', out) = utf8_lead (utf8_reset d) b in (d', 0xFFFD # out))
      else
        (let d1 = d\<lparr>code_point := code_point d * 64 + b mod 64,
                     bytes_seen := bytes_seen d + 1, lower := 0x80, upper := 0xBF\<rparr>
         in if bytes_seen d1 \<noteq> bytes_needed d1 then (d1, [])
            else (utf8_reset d1, [code_point d1])))"

definition strip_bom :: "utf8 \<times> utext \<Rightarrow> utf8 \<times> utext" where
  "strip_bom r =
     (case r of (d, out) \<Rightarrow>
        if bom_seen d \<or> out = [] then (d, out)
        else (d\<lparr>bom_seen := True\<rparr>, if hd out = 0xFEFF then tl out else out))"

fun decode :: "utf8 \<Rightarrow> 8 word list \<Rightarrow> utf8 \<times> utext" where
  "decode d [] = (d, [])"
| "decode d (b # bs) =
     (let (d1, o1) = strip_bom (utf8_byte d (unat b));
          (d2, o2) = decode d1 bs
      in (d2, o1 @ o2))"

subsection \<open>Lines\<close>

text \<open>
  \<open>buffer.indexOf("\n")\<close>; \<open>None\<close> is the result \<open>-1\<close>. With a start position the
  search begins there, and a start at or behind the end finds nothing.
\<close>

primrec indexOf_nl :: "utext \<Rightarrow> nat option" where
  "indexOf_nl [] = None"
| "indexOf_nl (c # cs) = (if c = 10 then Some 0 else map_option Suc (indexOf_nl cs))"

definition indexOf_nl_from :: "utext \<Rightarrow> nat \<Rightarrow> nat option" where
  "indexOf_nl_from buf from = map_option (\<lambda>i. i + from) (indexOf_nl (drop from buf))"

text \<open>An index used as a condition: \<open>-1\<close> and every positive index count as true, 0 as false.\<close>

definition index_truthy :: "nat option \<Rightarrow> bool" where
  "index_truthy i = (i \<noteq> Some 0)"

text \<open>\<open>String.prototype.trim\<close> removes white space and line terminators at both ends.\<close>

definition is_space :: "nat \<Rightarrow> bool" where
  "is_space c =
     (c \<in> {0x09, 0x0A, 0x0B, 0x0C, 0x0D, 0x20, 0xA0, 0x1680, 0x2028, 0x2029,
           0x202F, 0x205F, 0x3000, 0xFEFF} \<or> (0x2000 \<le> c \<and> c \<le> 0x200A))"

definition trim :: "utext \<Rightarrow> utext" where
  "trim t = rev (dropWhile is_space (rev (dropWhile is_space t)))"

definition of_string :: "string \<Rightarrow> utext" where
  "of_string s = map of_char s"

definition startsWith :: "utext \<Rightarrow> utext \<Rightarrow> bool" where
  "startsWith t p = (take (length p) t = p)"


section \<open>The changes stream as a machine\<close>

text \<open>
  What the class is given from outside: its options, \<open>JSON.parse\<close> (\<open>None\<close> when it
  throws a SyntaxError) and \<open>Math.random\<close>, whose value at the n-th retry is
  \<open>random n\<close>.
\<close>

record config =
  options :: options
  JSON_parse :: "utext \<Rightarrow> jsval option"
  random :: "nat \<Rightarrow> real"

text \<open>
  The asynchronous generator \<open>fetchChanges\<close> behind \<open>Symbol.asyncIterator\<close> stands at
  one of these places whenever it is suspended: before its first \<open>next()\<close>, at one of
  its \<open>await\<close>s, or at one of its two \<open>yield\<close>s.
\<close>

datatype place =
    NotStarted
  | AwaitFetch
  | AwaitText nat
  | AwaitJson
  | YieldedBatch "jsval list" "jsval option"
  | AwaitRead utext utf8
  | YieldedLine utext bool utf8
  | Sleeping real
  | Finished

text \<open>
  \<open>activeSeq\<close> and the abort flag of \<open>this.abortController\<close> belong to the instance;
  the place, \<open>retryCount\<close> and the armed heartbeat timer (with its delay) belong to
  the running iteration. The request-scoped \<open>abortControllerWithHeartbeat\<close> only
  decides what the transport does with a request and is left to the events.
\<close>

record state =
  pc :: place
  activeSeq :: "jsval option"
  aborted :: bool
  retryCount :: nat
  heartbeatTimeout :: "real option"

record response =
  ok :: bool
  status :: nat
  has_body :: bool

text \<open>
  What happens to a suspended generator: the consumer calls \<open>next()\<close> or
  \<open>return()\<close> (a \<open>break\<close> out of \<open>for await\<close>), somebody calls \<open>stop()\<close> or aborts
  the controller, or the awaited race settles. \<open>JsonBody results last_seq\<close> is a body
  that parses to an object with an array \<open>results\<close>; \<open>JsonFail\<close> is every other body.
  \<open>ReadEnd\<close> is the read result \<open>{done: true}\<close>, which carries no value.
  \<open>HeartbeatExpired\<close> is an awaited race lost to \<open>heartbeatPromise\<close>; its timer may
  have fired before, while the consumer held a record, and the rejection is seen at the
  next \<open>await\<close>.
\<close>

datatype event =
    Pull
  | Return
  | Stop
  | FetchOk response
  | FetchFail
  | TextDone string
  | TextFail
  | JsonBody "jsval list" "jsval option"
  | JsonFail
  | ReadChunk "8 word list"
  | ReadEnd
  | ReadFail
  | HeartbeatExpired
  | TimerDone

text \<open>What the outside sees: a request sent, and how a \<open>next()\<close> settles.\<close>

datatype out =
    Request request
  | Yield jsval
  | Throw error
  | Done

definition init :: state where
  "init = \<lparr>pc = NotStarted, activeSeq = None, aborted = False, retryCount = 0,
            heartbeatTimeout = None\<rparr>"

text \<open>
  \<open>stop()\<close>, that is \<open>this.abortController.abort()\<close> (lines 300 to 302): the first
  call fires the abort listener (lines 91 to 97), which clears the heartbeat timer; a
  later call does nothing.
\<close>

definition stop :: "state \<Rightarrow> state" where
  "stop s = (if aborted s then s else s\<lparr>aborted := True, heartbeatTimeout := None\<rparr>)"

text \<open>
  The generator returns or throws; the \<open>finally\<close> of the iterator (lines 293 to 297)
  aborts.
\<close>

definition finish :: "state \<Rightarrow> out \<Rightarrow> state \<times> out list" where
  "finish s final = ((stop s)\<lparr>pc := Finished\<rparr>, [final])"

text \<open>\<open>resetHeartbeat\<close> (lines 102 to 133): arms the timer anew when the feed uses one.\<close>

definition resetHeartbeat :: "config \<Rightarrow> state \<Rightarrow> state" where
  "resetHeartbeat C s =
     (if \<not> usesHeartbeat (options C) then s
      else s\<lparr>heartbeatTimeout := Some (adjustedTimeout (options C))\<rparr>)"

text \<open>\<open>Math.min(2 ** retryCount * 100, 30000)\<close>.\<close>

definition backoff :: "nat \<Rightarrow> real" where
  "backoff n = min (2 ^ n * 100) 30000"

text \<open>The \<open>catch\<close> of the outer \<open>try\<close> (lines 263 to 286), up to the sleep.\<close>

definition on_error :: "config \<Rightarrow> state \<Rightarrow> error \<Rightarrow> state \<times> out list" where
  "on_error C s e =
     (if aborted s then finish s Done
      else if opt_truthy (options C) ''live'' then
        (let n = retryCount s + 1;
             jitter = random C n * 100;
             delay = backoff n + jitter
         in (s\<lparr>retryCount := n, heartbeatTimeout := None, pc := Sleeping delay\<rparr>, []))
      else finish s (Throw e))"

text \<open>The head of the outer \<open>while\<close> up to the call of \<open>fetch\<close> (lines 137 to 178).\<close>

definition connect :: "config \<Rightarrow> state \<Rightarrow> state \<times> out list" where
  "connect C s =
     (if aborted s then finish s Done
      else
        (let s1 = resetHeartbeat C s in
         case buildUrl (options C) (activeSeq s1) of
           Inl e \<Rightarrow> on_error C s1 e
         | Inr q \<Rightarrow>
             (s1\<lparr>pc := AwaitFetch\<rparr>,
              [Request \<lparr>req_method = request_method (options C), req_query = q,
                        req_body = requestBody (options C)\<rparr>])))"

text \<open>\<open>if (data.last_seq) this.activeSeq = data.last_seq\<close> (lines 195 to 197).\<close>

definition set_last_seq :: "state \<Rightarrow> jsval option \<Rightarrow> state" where
  "set_last_seq s last_seq =
     (case last_seq of
        Some v \<Rightarrow> if truthy v then s\<lparr>activeSeq := Some v\<rparr> else s
      | None \<Rightarrow> s)"

text \<open>
  The \<open>for\<close> loop over \<open>data.results\<close> and what follows it (lines 191 to 204): one
  call runs to the next \<open>yield\<close> or to the end of the batch.
\<close>

definition batch_loop :: "config \<Rightarrow> state \<Rightarrow> jsval list \<Rightarrow> jsval option \<Rightarrow> state \<times> out list" where
  "batch_loop C s rs last_seq =
     (case rs of
        change # rest \<Rightarrow>
          (case prop_seq change of
             Inl e \<Rightarrow> on_error C s e
           | Inr sq \<Rightarrow> (s\<lparr>activeSeq := sq, pc := YieldedBatch rest last_seq\<rparr>, [Yield change]))
      | [] \<Rightarrow>
          (let s1 = set_last_seq s last_seq
           in if isLongpoll (options C) \<and> \<not> aborted s1 then connect C s1
              else finish s1 Done))"

text \<open>
  The head of the inner \<open>while\<close> (line 213): leaving it ends the \<open>try\<close> and leads
  to the outer head.
\<close>

definition read_head :: "config \<Rightarrow> state \<Rightarrow> utext \<Rightarrow> utf8 \<Rightarrow> state \<times> out list" where
  "read_head C s buf d =
     (if aborted s then connect C s else (s\<lparr>pc := AwaitRead buf d\<rparr>, []))"

text \<open>
  What the loop over the lines does with one trimmed line (lines 230 to 244): in an
  eventsource feed an
  \<open>event:\<close> line is passed over and \<open>data:\<close> is cut off; a line that is blank
  after that is \<open>Blank\<close>, every other line is to be parsed.
\<close>

datatype line_kind = Skip | Blank | Payload utext

definition classify :: "config \<Rightarrow> utext \<Rightarrow> line_kind" where
  "classify C line0 =
     (if isEventsource (options C) \<and> startsWith line0 (of_string ''event:'') then Skip
      else
        (let line = (if isEventsource (options C) \<and> startsWith line0 (of_string ''data:'')
                     then drop 5 line0 else line0)
         in if trim line = [] then Blank else Payload line))"

text \<open>
  \<open>JSON.parse(line)\<close> followed by \<open>change.seq\<close>; \<open>None\<close> when either throws, which
  lands in the inner \<open>catch\<close>.
\<close>

definition parse_change :: "config \<Rightarrow> utext \<Rightarrow> (jsval \<times> jsval option) option" where
  "parse_change C line =
     (case JSON_parse C line of
        None \<Rightarrow> None
      | Some change \<Rightarrow>
          (case prop_seq change of Inl e \<Rightarrow> None | Inr sq \<Rightarrow> Some (change, sq)))"

lemma indexOf_nl_less: "indexOf_nl buf = Some n \<Longrightarrow> n < length buf"
  by (induction buf arbitrary: n) (auto split: if_splits)

text \<open>
  The loop over the lines of the buffer (lines 222 to 261), up to the next \<open>yield\<close>,
  \<open>return\<close>, \<open>throw\<close> or the next read.
\<close>

function lines_loop :: "config \<Rightarrow> state \<Rightarrow> utext \<Rightarrow> bool \<Rightarrow> utf8 \<Rightarrow> state \<times> out list" where
  "lines_loop C s buffer done d =
     (case indexOf_nl buffer of
        None \<Rightarrow> if done \<or> aborted s then finish s Done else read_head C s buffer d
      | Some newlineIndex \<Rightarrow>
          if aborted s then finish s Done
          else
            (let line0 = trim (take newlineIndex buffer);
                 buffer' = drop (Suc newlineIndex) buffer
             in case classify C line0 of
                  Skip \<Rightarrow> lines_loop C s buffer' done d
                | Blank \<Rightarrow> if done then finish s Done else lines_loop C s buffer' done d
                | Payload line \<Rightarrow>
                    (case parse_change C line of
                       Some (change, sq) \<Rightarrow>
                         (s\<lparr>activeSeq := sq, pc := YieldedLine buffer' done d\<rparr>,
                          [Yield change])
                     | None \<Rightarrow>
                         if \<not> aborted s \<and> index_truthy (indexOf_nl_from buffer' newlineIndex)
                         then on_error C s (ParseError line)
                         else lines_loop C s buffer' done d)))"
  by pat_completeness auto
termination
  by (relation "measure (\<lambda>(C, s, buffer, done, d). length buffer)")
     (auto dest: indexOf_nl_less)

declare lines_loop.simps [simp del]

text \<open>After \<open>fetch\<close> has resolved (lines 180 to 211).\<close>

definition on_response :: "config \<Rightarrow> state \<Rightarrow> response \<Rightarrow> state \<times> out list" where
  "on_response C s r =
     (if \<not> ok r then (s\<lparr>pc := AwaitText (status r)\<rparr>, [])
      else if isNormal (options C) \<or> isLongpoll (options C) then (s\<lparr>pc := AwaitJson\<rparr>, [])
      else if \<not> has_body r then on_error C s NoBody
      else read_head C s [] utf8_init)"

definition awaiting :: "place \<Rightarrow> bool" where
  "awaiting p =
     (case p of AwaitFetch \<Rightarrow> True | AwaitText n \<Rightarrow> True | AwaitJson \<Rightarrow> True
      | AwaitRead b d \<Rightarrow> True | _ \<Rightarrow> False)"

text \<open>
  One event. An event that the place does not wait for leaves the state as it is.
  \<open>return()\<close> on a generator that has not started completes it without running its body,
  so without the \<open>finally\<close>.
\<close>

fun step :: "config \<Rightarrow> state \<Rightarrow> event \<Rightarrow> state \<times> out list" where
  "step C s Stop = (stop s, [])"
| "step C s Pull =
     (case pc s of
        NotStarted \<Rightarrow> connect C (s\<lparr>retryCount := 0, heartbeatTimeout := None\<rparr>)
      | YieldedBatch rs last_seq \<Rightarrow> batch_loop C s rs last_seq
      | YieldedLine buf done d \<Rightarrow> lines_loop C s buf done d
      | _ \<Rightarrow> (s, []))"
| "step C s Return =
     (case pc s of
        NotStarted \<Rightarrow> (s\<lparr>pc := Finished\<rparr>, [Done])
      | YieldedBatch rs last_seq \<Rightarrow> finish s Done
      | YieldedLine buf done d \<Rightarrow> finish s Done
      | _ \<Rightarrow> (s, []))"
| "step C s (FetchOk r) =
     (case pc s of AwaitFetch \<Rightarrow> on_response C s r | _ \<Rightarrow> (s, []))"
| "step C s FetchFail =
     (case pc s of AwaitFetch \<Rightarrow> on_error C s FetchError | _ \<Rightarrow> (s, []))"
| "step C s (TextDone t) =
     (case pc s of AwaitText n \<Rightarrow> on_error C s (HttpError n t) | _ \<Rightarrow> (s, []))"
| "step C s TextFail =
     (case pc s of AwaitText n \<Rightarrow> on_error C s BodyError | _ \<Rightarrow> (s, []))"
| "step C s (JsonBody rs last_seq) =
     (case pc s of AwaitJson \<Rightarrow> batch_loop C s rs last_seq | _ \<Rightarrow> (s, []))"
| "step C s JsonFail =
     (case pc s of AwaitJson \<Rightarrow> on_error C s JsonError | _ \<Rightarrow> (s, []))"
| "step C s (ReadChunk bytes) =
     (case pc s of
        AwaitRead buf d \<Rightarrow>
          (let s1 = resetHeartbeat C s;
               (d', t) = decode d bytes
           in lines_loop C s1 (buf @ t) False d')
      | _ \<Rightarrow> (s, []))"
| "step C s ReadEnd =
     (case pc s of
        AwaitRead buf d \<Rightarrow> lines_loop C (resetHeartbeat C s) buf True d
      | _ \<Rightarrow> (s, []))"
| "step C s ReadFail =
     (case pc s of AwaitRead buf d \<Rightarrow> on_error C s ReadError | _ \<Rightarrow> (s, []))"
| "step C s HeartbeatExpired =
     (case heartbeatTimeout s of
        Some t \<Rightarrow> if awaiting (pc s) then on_error C s (HeartbeatTimeout t) else (s, [])
      | None \<Rightarrow> (s, []))"
| "step C s TimerDone =
     (case pc s of Sleeping delay \<Rightarrow> connect C s | _ \<Rightarrow> (s, []))"

text \<open>A sequence of events, with everything it makes visible.\<close>

fun exec :: "config \<Rightarrow> state \<Rightarrow> event list \<Rightarrow> state \<times> out list" where
  "exec C s [] = (s, [])"
| "exec C s (e # es) =
     (let (s1, o1) = step C s e;
          (s2, o2) = exec C s1 es
      in (s2, o1 @ o2))"

text \<open>
  A new iteration of the same instance: a new generator, which sets up its locals when
  its body starts.
\<close>

definition iterate :: "state \<Rightarrow> state" where
  "iterate s = s\<lparr>pc := NotStarted\<rparr>"


section \<open>The consumer\<close>

text \<open>
  What the loop over the lines comes to, case by case; the measure of \<open>consume\<close>
  below rests on it.
\<close>

lemma lines_loop_shape:
  "r = lines_loop C s buffer done d \<Longrightarrow>
   r = finish s Done
   \<or> (\<not> aborted s \<and> (\<exists>b. r = (s\<lparr>pc := AwaitRead b d\<rparr>, []) \<and> indexOf_nl b = None))
   \<or> (\<not> aborted s \<and> (\<exists>c sq b. r = (s\<lparr>activeSeq := sq, pc := YieldedLine b done d\<rparr>, [Yield c])
          \<and> prop_seq c = Inr sq \<and> length b < length buffer))
   \<or> (\<not> aborted s \<and> (\<exists>l. r = on_error C s (ParseError l)))"
proof (induction C s buffer "done" d arbitrary: r rule: lines_loop.induct)
  case (1 C s buffer dn d)
  show ?case
  proof (cases "indexOf_nl buffer")
    case None
    with "1.prems" show ?thesis
      by (subst (asm) lines_loop.simps) (auto simp: read_head_def)
  next
    case (Some n)
    then have len: "length (drop (Suc n) buffer) < length buffer"
      by (auto dest: indexOf_nl_less)
    show ?thesis
    proof (cases "aborted s")
      case True
      with "1.prems" Some show ?thesis
        by (subst (asm) lines_loop.simps) simp
    next
      case na: False
      define b' where "b' = drop (Suc n) buffer"
      have rec: ?thesis if "r = lines_loop C s b' dn d"
        and "classify C (trim (take n buffer)) = Skip \<or>
             (classify C (trim (take n buffer)) = Blank \<and> \<not> dn) \<or>
             (\<exists>l. classify C (trim (take n buffer)) = Payload l \<and> parse_change C l = None
                  \<and> \<not> index_truthy (indexOf_nl_from b' n))"
      proof -
        let ?S = "\<lambda>L. r = finish s Done
           \<or> (\<not> aborted s \<and> (\<exists>b. r = (s\<lparr>pc := AwaitRead b d\<rparr>, []) \<and> indexOf_nl b = None))
           \<or> (\<not> aborted s \<and> (\<exists>c sq b. r = (s\<lparr>activeSeq := sq, pc := YieldedLine b dn d\<rparr>, [Yield c])
                  \<and> prop_seq c = Inr sq \<and> length b < L))
           \<or> (\<not> aborted s \<and> (\<exists>l. r = on_error C s (ParseError l)))"
        have "?S (length b')"
          using that(2)
        proof (elim disjE exE conjE)
          assume "classify C (trim (take n buffer)) = Skip"
          then show ?thesis
            using "1.IH"(1) [OF Some na refl refl _ that(1) [unfolded b'_def]] by (simp add: b'_def)
        next
          assume "classify C (trim (take n buffer)) = Blank" "\<not> dn"
          then show ?thesis
            using "1.IH"(2) [OF Some na refl refl _ _ that(1) [unfolded b'_def]] 
            by (simp add: b'_def)
        next
          fix l assume "classify C (trim (take n buffer)) = Payload l" "parse_change C l = None"
            "\<not> index_truthy (indexOf_nl_from b' n)"
          then show ?thesis
            using "1.IH"(3) [OF Some na refl refl _ _ _ that(1) [unfolded b'_def]] 
            by (simp add: b'_def)
        qed
        then show ?thesis using len unfolding b'_def by (elim disjE exE conjE) fastforce+
      qed
      show ?thesis
      proof (cases "classify C (trim (take n buffer))")
        case Skip
        with "1.prems" Some na have "r = lines_loop C s b' dn d"
          by (subst (asm) lines_loop.simps) (simp add: b'_def)
        with Skip show ?thesis by (intro rec) auto
      next
        case Blank
        show ?thesis
        proof (cases dn)
          case True
          with "1.prems" Some na Blank show ?thesis
            by (subst (asm) lines_loop.simps) simp
        next
          case False
          with "1.prems" Some na Blank have "r = lines_loop C s b' dn d"
            by (subst (asm) lines_loop.simps) (simp add: b'_def)
          with Blank \<open>\<not> dn\<close> show ?thesis by (intro rec) auto
        qed
      next
        case (Payload l)
        show ?thesis
        proof (cases "parse_change C l")
          case None
          show ?thesis
          proof (cases "index_truthy (indexOf_nl_from b' n)")
            case True
            with "1.prems" Some na Payload None show ?thesis
              by (subst (asm) lines_loop.simps) (auto simp add: b'_def)
          next
            case False
            with "1.prems" Some na Payload None have "r = lines_loop C s b' dn d"
              by (subst (asm) lines_loop.simps) (simp add: b'_def)
            with Payload None \<open>\<not> index_truthy (indexOf_nl_from b' n)\<close> show ?thesis
              by (intro rec) auto
          qed
        next
          case (Some a)
          obtain c sq where a: "a = (c, sq)" by (cases a)
          have "prop_seq c = Inr sq" using Some a
            by (auto simp: parse_change_def split: option.splits sum.splits)
          with "1.prems" \<open>indexOf_nl buffer = Some n\<close> na Payload Some a len show ?thesis
            by (subst (asm) lines_loop.simps) (auto simp add: b'_def)
        qed
      qed
    qed
  qed
qed


text \<open>
  A consumer that iterates with \<open>for await\<close> pulls again as soon as it has a record.
  \<open>pending\<close> bounds the records that a generator suspended at a \<open>yield\<close> can still
  give without a further event.
\<close>

fun pending :: "place \<Rightarrow> nat" where
  "pending (YieldedLine buf dn d) = Suc (length buf)"
| "pending (YieldedBatch rs ls) = Suc (length rs)"
| "pending p = 0"

lemma pending_on_error [simp]: "pending (pc (fst (on_error C s e))) = 0"
  by (simp add: on_error_def Let_def finish_def)

lemma pending_connect [simp]: "pending (pc (fst (connect C s))) = 0"
proof -
  have a: "activeSeq (resetHeartbeat C s) = activeSeq s"
    by (simp add: resetHeartbeat_def)
  show ?thesis
    by (cases "buildUrl (options C) (activeSeq s)")
       (simp_all add: connect_def Let_def finish_def a)
qed

lemma pending_lines_loop: "pending (pc (fst (lines_loop C s buf dn d))) < Suc (length buf)"
  using lines_loop_shape [OF refl, of C s buf dn d]
  by (auto simp: finish_def)

lemma pending_batch_loop: "pending (pc (fst (batch_loop C s rs ls))) < Suc (length rs)"
  by (auto simp: batch_loop_def Let_def finish_def split: list.splits sum.splits)

lemma pending_pull: "0 < pending (pc s) \<Longrightarrow> pending (pc (fst (step C s Pull))) < pending (pc s)"
  using pending_lines_loop [of C s] pending_batch_loop [of C s]
  by (cases "pc s") auto

lemma pending_pull_pair:
  "0 < pending (pc s) \<Longrightarrow> (s1, o1) = step C s Pull \<Longrightarrow> pending (pc s1) < pending (pc s)"
  using pending_pull [of s C] by (metis fst_conv)

text \<open>\<open>consume\<close>: the consumer pulls until the generator waits for something else.\<close>

function consume :: "config \<Rightarrow> state \<Rightarrow> state \<times> out list" where
  "consume C s =
     (if 0 < pending (pc s)
      then (let (s1, o1) = step C s Pull; (s2, o2) = consume C s1 in (s2, o1 @ o2))
      else (s, []))"
  by pat_completeness auto
termination
  by (relation "measure (\<lambda>(C, s). pending (pc s))")
     (auto simp del: step.simps intro: pending_pull_pair)

declare consume.simps [simp del]

text \<open>
  \<open>feed\<close>: a sequence of events with such a consumer. \<open>run_stream\<close>: one connection
  of a new iteration whose body arrives in the given chunks and then ends.
\<close>

fun feed :: "config \<Rightarrow> state \<Rightarrow> event list \<Rightarrow> state \<times> out list" where
  "feed C s [] = (s, [])"
| "feed C s (e # es) =
     (let (s1, o1) = step C s e;
          (s2, o2) = consume C s1;
          (s3, o3) = feed C s2 es
      in (s3, o1 @ o2 @ o3))"

definition run_stream :: "config \<Rightarrow> state \<Rightarrow> response \<Rightarrow> 8 word list list \<Rightarrow> state \<times> out list" where
  "run_stream C s r chunks = feed C s (Pull # FetchOk r # map ReadChunk chunks @ [ReadEnd])"

section \<open>Notions of the statements and proofs\<close>

text \<open>
  A request as \<open>connect\<close> sends it from the state it leaves: the method and body of
  the options, and the query that \<open>buildUrl\<close> makes of the cursor.
\<close>

definition request_of :: "config \<Rightarrow> state \<Rightarrow> request \<Rightarrow> bool" where
  "request_of C s' r =
     (\<not> aborted s' \<and> pc s' = AwaitFetch \<and> req_method r = request_method (options C) \<and>
      req_body r = requestBody (options C) \<and>
      buildUrl (options C) (activeSeq s') = Inr (req_query r))"


text \<open>The \<open>seq\<close> of a record, and the cursor that a batch leaves behind.\<close>

definition seq_of :: "jsval \<Rightarrow> jsval option" where
  "seq_of c = (case prop_seq c of Inr sq \<Rightarrow> sq | Inl e \<Rightarrow> None)"

definition batch_cursor :: "jsval option \<Rightarrow> jsval list \<Rightarrow> jsval option \<Rightarrow> jsval option" where
  "batch_cursor a rs ls =
     (if (\<exists>v. ls = Some v \<and> truthy v) then ls
      else if rs = [] then a else seq_of (last rs))"

text \<open>A result that shows the consumer nothing but the end of the iteration.\<close>

definition silent :: "state \<times> out list \<Rightarrow> bool" where
  "silent r = (aborted (fst r) \<and> set (snd r) \<subseteq> {Done})"

text \<open>
  The places where the code inside the outer \<open>try\<close> throws. \<open>line_raises C done buf l\<close>:
  the loop over the lines of \<open>buf\<close> passes over blank and \<open>event:\<close> lines and comes
  to the line \<open>l\<close>, which does not parse (after the last read a blank line ends the
  loop). \<open>raises C s e err\<close>: in state \<open>s\<close> the event
  \<open>e\<close> makes the generator throw \<open>err\<close>: a rejected \<open>fetch\<close>, \<open>text()\<close>, \<open>json()\<close> or
  \<open>read()\<close>, a status that is not ok, a missing body, a \<open>null\<close> record, the
  heartbeat timeout, a line that does not parse, a URL that cannot be built.
\<close>

inductive line_raises :: "config \<Rightarrow> bool \<Rightarrow> utext \<Rightarrow> utext \<Rightarrow> bool" for C ended where
  bad_line:
    "indexOf_nl buf = Some n \<Longrightarrow> classify C (trim (take n buf)) = Payload l \<Longrightarrow>
     parse_change C l = None \<Longrightarrow> line_raises C ended buf l"
| after_skip:
    "indexOf_nl buf = Some n \<Longrightarrow> classify C (trim (take n buf)) = Skip \<Longrightarrow>
     line_raises C ended (drop (Suc n) buf) l \<Longrightarrow> line_raises C ended buf l"
| after_blank:
    "indexOf_nl buf = Some n \<Longrightarrow> classify C (trim (take n buf)) = Blank \<Longrightarrow>
     \<not> ended \<Longrightarrow> line_raises C ended (drop (Suc n) buf) l \<Longrightarrow> line_raises C ended buf l"

code_pred
  (modes: i \<Rightarrow> i \<Rightarrow> i \<Rightarrow> o \<Rightarrow> bool, i \<Rightarrow> i \<Rightarrow> i \<Rightarrow> i \<Rightarrow> bool) line_raises .

inductive raises :: "config \<Rightarrow> state \<Rightarrow> event \<Rightarrow> error \<Rightarrow> bool" for C s where
  fetch_rejects: "pc s = AwaitFetch \<Longrightarrow> raises C s FetchFail FetchError"
| no_reader:
    "pc s = AwaitFetch \<Longrightarrow> ok r \<Longrightarrow> \<not> isNormal (options C) \<Longrightarrow>
     \<not> isLongpoll (options C) \<Longrightarrow> \<not> has_body r \<Longrightarrow> raises C s (FetchOk r) NoBody"
| http_status: "pc s = AwaitText n \<Longrightarrow> raises C s (TextDone t) (HttpError n t)"
| text_rejects: "pc s = AwaitText n \<Longrightarrow> raises C s TextFail BodyError"
| json_rejects: "pc s = AwaitJson \<Longrightarrow> raises C s JsonFail JsonError"
| null_first: "pc s = AwaitJson \<Longrightarrow> raises C s (JsonBody (JNull # rs) ls) TypeError"
| null_next: "pc s = YieldedBatch (JNull # rs) ls \<Longrightarrow> raises C s Pull TypeError"
| read_rejects: "pc s = AwaitRead buf d \<Longrightarrow> raises C s ReadFail ReadError"
| heartbeat_expires:
    "awaiting (pc s) \<Longrightarrow> heartbeatTimeout s = Some t \<Longrightarrow>
     raises C s HeartbeatExpired (HeartbeatTimeout t)"
| bad_line_read:
    "pc s = AwaitRead buf d \<Longrightarrow> line_raises C False (buf @ snd (decode d bytes)) l \<Longrightarrow>
     raises C s (ReadChunk bytes) (ParseError l)"
| bad_line_end:
    "pc s = AwaitRead buf d \<Longrightarrow> line_raises C True buf l \<Longrightarrow>
     raises C s ReadEnd (ParseError l)"
| bad_line_next:
    "pc s = YieldedLine buf done d \<Longrightarrow> line_raises C done buf l \<Longrightarrow>
     raises C s Pull (ParseError l)"
| url_first:
    "pc s = NotStarted \<Longrightarrow> \<not> aborted s \<Longrightarrow> buildUrl (options C) (activeSeq s) = Inl err \<Longrightarrow>
     raises C s Pull err"
| url_retry:
    "pc s = Sleeping delay \<Longrightarrow> \<not> aborted s \<Longrightarrow>
     buildUrl (options C) (activeSeq s) = Inl err \<Longrightarrow> raises C s TimerDone err"
| url_poll_first:
    "pc s = AwaitJson \<Longrightarrow> \<not> aborted s \<Longrightarrow> isLongpoll (options C) \<Longrightarrow>
     buildUrl (options C) (activeSeq (set_last_seq s ls)) = Inl err \<Longrightarrow>
     raises C s (JsonBody [] ls) err"
| url_poll_next:
    "pc s = YieldedBatch [] ls \<Longrightarrow> \<not> aborted s \<Longrightarrow> isLongpoll (options C) \<Longrightarrow>
     buildUrl (options C) (activeSeq (set_last_seq s ls)) = Inl err \<Longrightarrow>
     raises C s Pull err"

code_pred
  (modes: i \<Rightarrow> i \<Rightarrow> i \<Rightarrow> o \<Rightarrow> bool, i \<Rightarrow> i \<Rightarrow> i \<Rightarrow> i \<Rightarrow> bool) raises .



text \<open>
  For the proofs: the line loop with the consumer on a whole buffer, its continuation
  on more text, a generator that waits for a chunk with a buffer free of line feeds,
  places where a chunk is not waited for, and one event with the consumer.
\<close>

definition lines_all :: "config \<Rightarrow> state \<Rightarrow> utext \<Rightarrow> utf8 \<Rightarrow> state \<times> out list" where
  "lines_all C s buf d =
     (let (s1, o1) = lines_loop C s buf False d; (s2, o2) = consume C s1
      in (s2, o1 @ o2))"

definition then_lines :: "config \<Rightarrow> state \<times> out list \<Rightarrow> utext \<Rightarrow> utf8 \<Rightarrow> state \<times> out list" where
  "then_lines C r y d2 =
     (case pc (fst r) of
        AwaitRead rem d' \<Rightarrow>
          (let r' = lines_all C (fst r) (rem @ y) d2 in (fst r', snd r @ snd r'))
      | _ \<Rightarrow> r)"

definition reading :: "config \<Rightarrow> state \<Rightarrow> bool" where
  "reading C s =
     ((\<exists>buf d. pc s = AwaitRead buf d \<and> indexOf_nl buf = None)
      \<and> \<not> aborted s \<and> resetHeartbeat C s = s)"

fun deaf :: "place \<Rightarrow> bool" where
  "deaf (AwaitRead buf d) = False"
| "deaf (YieldedLine buf dn d) = False"
| "deaf (YieldedBatch rs ls) = False"
| "deaf p = True"

definition chunk :: "config \<Rightarrow> state \<Rightarrow> event \<Rightarrow> state \<times> out list" where
  "chunk C s e = (let (s1, o1) = step C s e; (s2, o2) = consume C s1 in (s2, o1 @ o2))"

text \<open>Sample inputs for closed instances of the theorems.\<close>

definition sample_parse :: "utext \<Rightarrow> jsval option" where
  "sample_parse l =
     (if l = of_string ''{\"seq\":1}'' then Some (JObj [(''seq'', JNum 1)])
      else if l = of_string ''{\"seq\":2}'' then Some (JObj [(''seq'', JNum 2)])
      else if l = of_string ''{\"seq\":\"'' @ [0xE9] @ of_string ''\"}''
        then Some (JObj [(''seq'', JStr [CHR 0xE9])])
      else None)"

definition sample_config :: "options \<Rightarrow> config" where
  "sample_config os = \<lparr>options = os, JSON_parse = sample_parse, random = (\<lambda>n. 1 / 2)\<rparr>"


definition lf :: "8 word" where
  "lf = 10"

definition ascii :: "string \<Rightarrow> 8 word list" where
  "ascii s = map of_char s"

section \<open>Outcomes of the loops\<close>


lemma on_error_no_Request: "Request r \<notin> set (snd (on_error C s e))"
  by (simp add: on_error_def finish_def Let_def)


section \<open>Requests\<close>

lemma connect_Request:
  "Request r \<in> set (snd (connect C s)) \<Longrightarrow>
     \<not> aborted s \<and> snd (connect C s) = [Request r] \<and> request_of C (fst (connect C s)) r
     \<and> activeSeq (fst (connect C s)) = activeSeq s"
  by (cases "buildUrl (options C) (activeSeq s)")
     (auto simp: connect_def Let_def resetHeartbeat_def finish_def on_error_def request_of_def
           split: if_splits)

lemma batch_loop_Request:
  "Request r \<in> set (snd (batch_loop C s rs ls)) \<Longrightarrow>
     \<not> aborted s \<and> snd (batch_loop C s rs ls) = [Request r]
     \<and> request_of C (fst (batch_loop C s rs ls)) r"
  by (auto simp: batch_loop_def set_last_seq_def Let_def finish_def on_error_no_Request
           dest!: connect_Request split: list.splits sum.splits option.splits if_splits)

lemma read_head_no_Request: "Request r \<notin> set (snd (read_head C s buf d))"
  by (auto simp: read_head_def dest: connect_Request)

lemma lines_loop_no_Request: "Request r \<notin> set (snd (lines_loop C s buf dn d))"
  using lines_loop_shape [OF refl, of C s buf dn d]
  by (auto simp: finish_def on_error_no_Request)

lemma on_response_no_Request: "Request r \<notin> set (snd (on_response C s x))"
  by (simp add: on_response_def on_error_no_Request read_head_no_Request)

lemma step_Request:
  assumes "Request r \<in> set (snd (step C s e))"
  shows "\<not> aborted s \<and> snd (step C s e) = [Request r] \<and> request_of C (fst (step C s e)) r"
proof (cases e)
  case Pull
  with assms show ?thesis
    by (cases "pc s")
       (auto simp: lines_loop_no_Request dest: connect_Request batch_loop_Request)
next
  case TimerDone
  with assms show ?thesis
    by (cases "pc s") (auto dest: connect_Request)
next
  case (JsonBody rs ls)
  with assms show ?thesis
    by (cases "pc s") (auto dest: batch_loop_Request)
next
  case (ReadChunk bytes)
  with assms show ?thesis
    by (cases "pc s") (auto simp: lines_loop_no_Request split: prod.splits)
next
  case HeartbeatExpired
  with assms show ?thesis
    by (auto simp: on_error_no_Request split: option.splits if_splits)
qed (use assms in \<open>cases "pc s"; simp add: finish_def on_error_no_Request
       lines_loop_no_Request on_response_no_Request\<close>)+



text \<open>
  Claim C3, as the code has it: the request body is \<open>{doc_ids}\<close> when \<open>doc_ids\<close> is a
  non-empty list, else \<open>{selector}\<close> when \<open>selector\<close> is an object, empty or not (an
  array counts as an object), else absent; the method is POST exactly when a body was
  produced, else GET. This holds of every request the stream sends.
\<close>

theorem request_body_and_method:
  assumes "Request r \<in> set (snd (step C s e))"
  shows "req_body r =
           (case opt (options C) ''doc_ids'' of
              Some (JArr (x # xs)) \<Rightarrow> Some (JObj [(''doc_ids'', JArr (x # xs))])
            | _ \<Rightarrow>
                (case opt (options C) ''selector'' of
                   Some (JObj kv) \<Rightarrow> Some (JObj [(''selector'', JObj kv)])
                 | Some (JArr ys) \<Rightarrow> Some (JObj [(''selector'', JArr ys)])
                 | _ \<Rightarrow> None))
         \<and> req_method r = (if req_body r = None then GET else POST)"
  using step_Request [OF assms]
  by (auto simp: request_of_def requestBody_def request_method_def hasDocIds_def hasSelector_def
           split: option.splits jsval.splits list.splits)


theorem request_body_and_method_witness:
  "Request \<lparr>req_method = POST, req_query = [(''feed'', JStr ''continuous'')],
            req_body = Some (JObj [(''doc_ids'', JArr [JStr ''doc1''])])\<rparr>
     \<in> set (snd (step (sample_config [(''feed'', JStr ''continuous''),
                (''doc_ids'', JArr [JStr ''doc1'']), (''selector'', JObj [])]) init Pull))
   \<and> req_body \<lparr>req_method = POST, req_query = [(''feed'', JStr ''continuous'')],
            req_body = Some (JObj [(''doc_ids'', JArr [JStr ''doc1''])])\<rparr>
       = Some (JObj [(''doc_ids'', JArr [JStr ''doc1''])])"
proof -
  let ?r = "\<lparr>req_method = POST, req_query = [(''feed'', JStr ''continuous'')],
            req_body = Some (JObj [(''doc_ids'', JArr [JStr ''doc1''])])\<rparr>"
  let ?C = "sample_config [(''feed'', JStr ''continuous''),
                (''doc_ids'', JArr [JStr ''doc1'']), (''selector'', JObj [])]"
  have h: "Request ?r \<in> set (snd (step ?C init Pull))"
    by (simp add: sample_config_def init_def connect_def resetHeartbeat_def usesHeartbeat_def
          isContinuous_def isEventsource_def opt_def buildUrl_def in_query_def
          request_method_def requestBody_def hasDocIds_def hasSelector_def
          adjustedTimeout_def)
  from request_body_and_method [OF h] h show ?thesis
    by (simp add: sample_config_def opt_def)
qed


text \<open>
  Claim C3 as stated asks for no body and GET when \<open>selector\<close> is the empty object;
  the stream sends \<open>{selector: {}}\<close> with POST.
\<close>

theorem empty_selector_counterexample:
  "snd (step (sample_config [(''selector'', JObj [])]) init Pull) =
     [Request \<lparr>req_method = POST, req_query = [],
               req_body = Some (JObj [(''selector'', JObj [])])\<rparr>]"
  by (simp add: sample_config_def init_def connect_def resetHeartbeat_def usesHeartbeat_def
        isContinuous_def isEventsource_def opt_def buildUrl_def in_query_def
        request_method_def requestBody_def hasDocIds_def hasSelector_def)


section \<open>Heartbeat\<close>

text \<open>
  Claim C4, as the code has it: when a connection attempt starts, the heartbeat timer
  is armed exactly for continuous and eventsource feeds whose \<open>heartbeat\<close> is not 0
  (so also for \<open>heartbeat: false\<close>); its interval is the numeric \<open>heartbeat\<close> if there
  is one, else 60000 ms, and the timer runs for interval + max(interval / 10, 1000) ms.
\<close>

theorem heartbeat_watchdog:
  assumes "pc s = NotStarted" and "Request r \<in> set (snd (step C s Pull))"
  shows "heartbeatTimeout (fst (step C s Pull)) =
           (let interval = (case opt (options C) ''heartbeat'' of Some (JNum n) \<Rightarrow> n | _ \<Rightarrow> 60000)
            in if (opt (options C) ''feed'' = Some (JStr ''continuous'')
                   \<or> opt (options C) ''feed'' = Some (JStr ''eventsource''))
                  \<and> opt (options C) ''heartbeat'' \<noteq> Some (JNum 0)
               then Some (interval + max (interval * (1 / 10)) 1000) else None)"
  using assms
  by (cases "buildUrl (options C) (activeSeq s)")
     (auto simp: connect_def Let_def resetHeartbeat_def usesHeartbeat_def isContinuous_def
        isEventsource_def adjustedTimeout_def timeoutBuffer_def heartbeatInterval_def
        on_error_no_Request finish_def split: if_splits)


theorem heartbeat_watchdog_witness:
  "pc init = NotStarted
   \<and> Request \<lparr>req_method = GET,
        req_query = [(''feed'', JStr ''eventsource''), (''heartbeat'', JNum 30000)],
        req_body = None\<rparr>
      \<in> set (snd (step (sample_config [(''feed'', JStr ''eventsource''),
                 (''heartbeat'', JNum 30000)]) init Pull))
   \<and> heartbeatTimeout (fst (step (sample_config [(''feed'', JStr ''eventsource''),
                 (''heartbeat'', JNum 30000)]) init Pull)) = Some 33000"
proof -
  let ?C = "sample_config [(''feed'', JStr ''eventsource''), (''heartbeat'', JNum 30000)]"
  let ?r = "\<lparr>req_method = GET,
        req_query = [(''feed'', JStr ''eventsource''), (''heartbeat'', JNum 30000)],
        req_body = None\<rparr>"
  have p: "pc init = NotStarted" by (simp add: init_def)
  have h: "Request ?r \<in> set (snd (step ?C init Pull))"
    by (simp add: sample_config_def init_def connect_def resetHeartbeat_def usesHeartbeat_def
          isContinuous_def isEventsource_def opt_def buildUrl_def in_query_def
          request_method_def requestBody_def hasDocIds_def hasSelector_def
          adjustedTimeout_def)
  from heartbeat_watchdog [OF p h] p h show ?thesis
    by (simp add: sample_config_def opt_def)
qed


text \<open>
  Claim C4 as stated has the watchdog off for \<open>heartbeat: false\<close>; the timer is armed
  with the default interval, for 66000 ms.
\<close>

theorem heartbeat_false_counterexample:
  "heartbeatTimeout (fst (step (sample_config [(''feed'', JStr ''continuous''),
       (''heartbeat'', JBool False)]) init Pull)) = Some 66000"
  by (simp add: sample_config_def init_def connect_def resetHeartbeat_def usesHeartbeat_def
        isContinuous_def isEventsource_def opt_def buildUrl_def in_query_def
        adjustedTimeout_def timeoutBuffer_def heartbeatInterval_def)

section \<open>Batches: normal and longpoll feeds\<close>

lemma prop_seq_not_null: "c \<noteq> JNull \<Longrightarrow> prop_seq c = Inr (seq_of c)"
  by (cases c) (simp_all add: seq_of_def)

lemma stop_update [simp]:
  "stop (s\<lparr>activeSeq := a\<rparr>) = (stop s)\<lparr>activeSeq := a\<rparr>"
  "stop (s\<lparr>pc := p\<rparr>) = (stop s)\<lparr>pc := p\<rparr>"
  by (simp_all add: stop_def)

lemma normal_not_longpoll: "isNormal os \<Longrightarrow> \<not> isLongpoll os"
  by (auto simp: isNormal_def isLongpoll_def opt_truthy_def)

lemma batch_run:
  assumes "\<forall>c\<in>set rs. c \<noteq> JNull" and "\<not> isLongpoll (options C)"
  shows "(let (s1, o1) = batch_loop C s rs ls;
              (s2, o2) = exec C s1 (replicate (length rs) Pull)
          in (s2, o1 @ o2))
         = ((stop s)\<lparr>activeSeq := batch_cursor (activeSeq s) rs ls, pc := Finished\<rparr>,
            map Yield rs @ [Done])"
  using assms(1)
proof (induction rs arbitrary: s)
  case Nil
  show ?case using assms(2)
    by (auto simp: batch_loop_def set_last_seq_def finish_def batch_cursor_def stop_def
          split: option.splits)
next
  case (Cons c rest)
  then have c: "prop_seq c = Inr (seq_of c)" and rest: "\<forall>c\<in>set rest. c \<noteq> JNull"
    by (simp_all add: prop_seq_not_null)
  let ?s1 = "s\<lparr>activeSeq := seq_of c, pc := YieldedBatch rest ls\<rparr>"
  have cur: "batch_cursor (seq_of c) rest ls = batch_cursor (activeSeq s) (c # rest) ls"
    by (auto simp: batch_cursor_def)
  have "batch_loop C s (c # rest) ls = (?s1, [Yield c])"
    by (simp add: batch_loop_def c)
  moreover have "exec C ?s1 (replicate (length (c # rest)) Pull)
      = (let (s1, o1) = batch_loop C ?s1 rest ls;
              (s2, o2) = exec C s1 (replicate (length rest) Pull)
          in (s2, o1 @ o2))"
    by simp
  ultimately show ?case
    using Cons.IH [OF rest, of ?s1] cur by (simp del: exec.simps replicate.simps)
qed

text \<open>
  Claim C1, as the code has it: a normal-mode connection (feed unset or \<open>normal\<close>) whose
  response is \<open>{results, last_seq}\<close> with N records sends exactly one request, yields the
  N records in array order and then ends; afterwards the cursor is \<open>last_seq\<close> when
  \<open>last_seq\<close> is truthy, and otherwise what the last record left (its \<open>seq\<close>, or the
  old cursor when there is no record).
\<close>

theorem normal_feed_run:
  assumes "isNormal (options C)" and "pc s = NotStarted" and "\<not> aborted s"
    and "buildUrl (options C) (activeSeq s) = Inr q" and "ok r"
    and "\<forall>c\<in>set rs. c \<noteq> JNull"
  shows "snd (exec C s (Pull # FetchOk r # JsonBody rs ls # replicate (length rs) Pull))
           = Request \<lparr>req_method = request_method (options C), req_query = q,
                      req_body = requestBody (options C)\<rparr> # map Yield rs @ [Done]
         \<and> pc (fst (exec C s (Pull # FetchOk r # JsonBody rs ls # replicate (length rs) Pull)))
           = Finished
         \<and> activeSeq (fst (exec C s (Pull # FetchOk r # JsonBody rs ls # replicate (length rs) Pull)))
           = (if (\<exists>v. ls = Some v \<and> truthy v) then ls
              else if rs = [] then activeSeq s else seq_of (last rs))"
proof -
  let ?s0 = "resetHeartbeat C (s\<lparr>retryCount := 0, heartbeatTimeout := None\<rparr>)"
  let ?req = "Request \<lparr>req_method = request_method (options C), req_query = q,
                      req_body = requestBody (options C)\<rparr>"
  have a0: "activeSeq ?s0 = activeSeq s" "\<not> aborted ?s0"
    using assms(3) by (simp_all add: resetHeartbeat_def)
  have 1: "step C s Pull = (?s0\<lparr>pc := AwaitFetch\<rparr>, [?req])"
    using assms(2,3,4) a0 by (simp add: connect_def Let_def resetHeartbeat_def)
  have 2: "step C (?s0\<lparr>pc := AwaitFetch\<rparr>) (FetchOk r) = (?s0\<lparr>pc := AwaitJson\<rparr>, [])"
    using assms(1,5) by (simp add: on_response_def)
  have 3: "exec C (?s0\<lparr>pc := AwaitJson\<rparr>) (JsonBody rs ls # replicate (length rs) Pull)
      = ((stop (?s0\<lparr>pc := AwaitJson\<rparr>))\<lparr>activeSeq :=
            batch_cursor (activeSeq (?s0\<lparr>pc := AwaitJson\<rparr>)) rs ls, pc := Finished\<rparr>,
         map Yield rs @ [Done])"
    using batch_run [OF assms(6) normal_not_longpoll [OF assms(1)], of "?s0\<lparr>pc := AwaitJson\<rparr>" ls]
    by (simp add: split_def Let_def del: replicate.simps)
  have "exec C s (Pull # FetchOk r # JsonBody rs ls # replicate (length rs) Pull)
      = ((stop (?s0\<lparr>pc := AwaitJson\<rparr>))\<lparr>activeSeq :=
            batch_cursor (activeSeq (?s0\<lparr>pc := AwaitJson\<rparr>)) rs ls, pc := Finished\<rparr>,
         ?req # map Yield rs @ [Done])"
    using 1 2 3 by (simp del: replicate.simps step.simps)
  then show ?thesis
    using a0 by (simp add: batch_cursor_def del: replicate.simps step.simps exec.simps)
qed

theorem normal_feed_run_witness:
  "isNormal (options (sample_config [(''feed'', JStr ''normal'')]))
   \<and> pc init = NotStarted \<and> \<not> aborted init
   \<and> buildUrl (options (sample_config [(''feed'', JStr ''normal'')])) (activeSeq init)
       = Inr [(''feed'', JStr ''normal'')]
   \<and> ok \<lparr>ok = True, status = 200, has_body = True\<rparr>
   \<and> JObj [(''seq'', JNum 1)] \<noteq> JNull \<and> JObj [(''seq'', JNum 2)] \<noteq> JNull
   \<and> snd (exec (sample_config [(''feed'', JStr ''normal'')]) init
         [Pull, FetchOk \<lparr>ok = True, status = 200, has_body = True\<rparr>,
          JsonBody [JObj [(''seq'', JNum 1)], JObj [(''seq'', JNum 2)]] (Some (JStr ''2'')),
          Pull, Pull])
       = [Request \<lparr>req_method = GET, req_query = [(''feed'', JStr ''normal'')],
                   req_body = None\<rparr>,
          Yield (JObj [(''seq'', JNum 1)]), Yield (JObj [(''seq'', JNum 2)]), Done]
   \<and> activeSeq (fst (exec (sample_config [(''feed'', JStr ''normal'')]) init
         [Pull, FetchOk \<lparr>ok = True, status = 200, has_body = True\<rparr>,
          JsonBody [JObj [(''seq'', JNum 1)], JObj [(''seq'', JNum 2)]] (Some (JStr ''2'')),
          Pull, Pull]))
       = Some (JStr ''2'')"
proof -
  let ?C = "sample_config [(''feed'', JStr ''normal'')]"
  let ?rs = "[JObj [(''seq'', JNum 1)], JObj [(''seq'', JNum 2)]]"
  let ?r = "\<lparr>ok = True, status = 200, has_body = True\<rparr>"
  have h: "isNormal (options ?C)" "pc init = NotStarted" "\<not> aborted init"
    "buildUrl (options ?C) (activeSeq init) = Inr [(''feed'', JStr ''normal'')]"
    "ok ?r" "\<forall>c\<in>set ?rs. c \<noteq> JNull"
    by (simp_all add: sample_config_def init_def isNormal_def opt_def buildUrl_def in_query_def)
  have m: "request_method (options ?C) = GET" "requestBody (options ?C) = None"
    by (simp_all add: sample_config_def request_method_def requestBody_def hasDocIds_def
          hasSelector_def opt_def)
  from normal_feed_run [OF h, of "Some (JStr ''2'')"] h m show ?thesis
    by simp
qed

text \<open>
  Claim C1 as stated advances the cursor to \<open>last_seq\<close> after every batch; for the
  answer \<open>{results: [], last_seq: 0}\<close> of an empty database the cursor stays unset.
\<close>

theorem falsy_last_seq_counterexample:
  "activeSeq (fst (exec (sample_config [(''feed'', JStr ''normal'')]) init
      [Pull, FetchOk \<lparr>ok = True, status = 200, has_body = True\<rparr>,
       JsonBody [] (Some (JNum 0))])) = None
   \<and> snd (exec (sample_config [(''feed'', JStr ''normal'')]) init
      [Pull, FetchOk \<lparr>ok = True, status = 200, has_body = True\<rparr>,
       JsonBody [] (Some (JNum 0))])
     = [Request \<lparr>req_method = GET, req_query = [(''feed'', JStr ''normal'')],
                 req_body = None\<rparr>, Done]"
  by (simp add: sample_config_def init_def connect_def resetHeartbeat_def usesHeartbeat_def
        isContinuous_def isEventsource_def opt_def buildUrl_def in_query_def
        request_method_def requestBody_def hasDocIds_def hasSelector_def
        on_response_def isNormal_def isLongpoll_def opt_truthy_def batch_loop_def
        set_last_seq_def finish_def stop_def)

section \<open>Query parameters\<close>












section \<open>After an abort\<close>

lemma resetHeartbeat_fields [simp]:
  "aborted (resetHeartbeat C s) = aborted s"
  "pc (resetHeartbeat C s) = pc s"
  "activeSeq (resetHeartbeat C s) = activeSeq s"
  "retryCount (resetHeartbeat C s) = retryCount s"
  by (simp_all add: resetHeartbeat_def)

lemma finish_fields [simp]:
  "snd (finish s x) = [x]"
  "pc (fst (finish s x)) = Finished"
  "aborted (fst (finish s x))"
  "activeSeq (fst (finish s x)) = activeSeq s"
  "retryCount (fst (finish s x)) = retryCount s"
  by (simp_all add: finish_def stop_def)

lemma aborted_on_error: "aborted s \<Longrightarrow> on_error C s e = finish s Done"
  by (simp add: on_error_def)

lemma aborted_connect: "aborted s \<Longrightarrow> connect C s = finish s Done"
  by (simp add: connect_def)

lemma aborted_read_head: "aborted s \<Longrightarrow> read_head C s buf d = finish s Done"
  by (simp add: read_head_def aborted_connect)

lemma aborted_lines_loop: "aborted s \<Longrightarrow> lines_loop C s buf dn d = finish s Done"
  by (subst lines_loop.simps) (simp split: option.splits)

lemma silent_finish [simp]: "silent (finish s Done)"
  by (simp add: silent_def)

lemma silent_ignored [simp]: "aborted s \<Longrightarrow> silent (s\<lparr>pc := p\<rparr>, [])" "aborted s \<Longrightarrow> silent (s, [])"
  by (simp_all add: silent_def)

lemma aborted_on_response: "aborted s \<Longrightarrow> silent (on_response C s r)"
  by (simp add: on_response_def aborted_on_error aborted_read_head)

lemma stop_aborted [simp]: "aborted s \<Longrightarrow> stop s = s" "aborted (stop s)"
  by (simp_all add: stop_def)

lemma stop_idem [simp]: "stop (stop s) = stop s"
  by (simp add: stop_def)

lemma aborted_batch_loop:
  "aborted s \<Longrightarrow> aborted (fst (batch_loop C s rs ls))
     \<and> set (snd (batch_loop C s rs ls)) \<subseteq> {Done} \<union> range Yield"
  by (auto simp: batch_loop_def Let_def aborted_on_error set_last_seq_def
           split: list.splits sum.splits option.splits)

lemmas aborted_simps = aborted_on_error aborted_connect aborted_read_head aborted_lines_loop
  aborted_on_response awaiting_def silent_def

lemma aborted_step:
  assumes "aborted s"
  shows "if pc s = AwaitJson \<or> (\<exists>rs ls. pc s = YieldedBatch rs ls)
         then aborted (fst (step C s e)) \<and> set (snd (step C s e)) \<subseteq> {Done} \<union> range Yield
         else silent (step C s e)"
proof (cases "pc s")
  case AwaitJson
  with assms aborted_batch_loop [OF assms, of C] show ?thesis
    by (cases e) (auto simp: aborted_simps split: option.splits)
next
  case (YieldedBatch rs ls)
  with assms aborted_batch_loop [OF assms, of C] show ?thesis
    by (cases e) (auto simp: aborted_simps split: option.splits)
next
  case AwaitFetch
  with assms aborted_on_response [OF assms, of C] show ?thesis
    by (cases e) (auto simp: aborted_simps split: option.splits)
qed (use assms in \<open>cases e; auto simp: aborted_simps split: option.splits prod.splits\<close>)+


lemmas eval_defs = sample_config_def init_def connect_def resetHeartbeat_def usesHeartbeat_def
  isContinuous_def isEventsource_def opt_def buildUrl_def in_query_def
  request_method_def requestBody_def hasDocIds_def hasSelector_def
  on_response_def isNormal_def isLongpoll_def opt_truthy_def read_head_def
  adjustedTimeout_def timeoutBuffer_def heartbeatInterval_def batch_loop_def set_last_seq_def
  ascii_def lf_def utf8_init_def utf8_byte_def utf8_lead_def utf8_reset_def strip_bom_def
  lines_loop.simps classify_def trim_def is_space_def startsWith_def of_string_def
  parse_change_def sample_parse_def stop_def finish_def on_error_def backoff_def
  indexOf_nl_from_def index_truthy_def awaiting_def iterate_def

text \<open>
  Claim C9, as the code has it: \<open>stop()\<close> (or the abort of the controller) sets the
  abort flag from every state, and a second call changes nothing. Once the flag is set,
  no step sends a request; outside the batch loop of a normal or longpoll feed no step
  yields a record, and the next pull of a stream that has not started or that stands
  at the \<open>yield\<close> of the line loop completes the iteration. A backoff sleep is not cut
  short: the sleeping generator ignores everything until its timer fires, and then
  completes the iteration without a request.
\<close>

theorem stop_effect:
  assumes "aborted s"
  shows "aborted (fst (step C s0 Stop))
     \<and> step C s Stop = (s, [])
     \<and> aborted (fst (step C s e))
     \<and> (\<forall>r. Request r \<notin> set (snd (step C s e)))
     \<and> (pc s \<noteq> AwaitJson \<and> (\<forall>rs ls. pc s \<noteq> YieldedBatch rs ls)
          \<longrightarrow> (\<forall>c. Yield c \<notin> set (snd (step C s e))))
     \<and> (pc s = NotStarted \<or> (\<exists>buf dn d. pc s = YieldedLine buf dn d)
          \<longrightarrow> snd (step C s Pull) = [Done] \<and> pc (fst (step C s Pull)) = Finished)
     \<and> (\<forall>delay. pc s = Sleeping delay
          \<longrightarrow> snd (step C s TimerDone) = [Done] \<and> pc (fst (step C s TimerDone)) = Finished
              \<and> (e \<noteq> TimerDone \<longrightarrow> step C s e = (s, [])))"
proof (intro conjI allI impI)
  show "aborted (fst (step C s0 Stop))" by simp
  show "step C s Stop = (s, [])" using assms by simp
  show "aborted (fst (step C s e))"
    using aborted_step [OF assms, of C e] by (auto simp: silent_def split: if_splits)
  show "Request r \<notin> set (snd (step C s e))" for r
    using step_Request [of r C s e] assms by blast
  show "Yield c \<notin> set (snd (step C s e))"
    if "pc s \<noteq> AwaitJson \<and> (\<forall>rs ls. pc s \<noteq> YieldedBatch rs ls)" for c
    using aborted_step [OF assms, of C e] that by (auto simp: silent_def)
  show "snd (step C s Pull) = [Done]" and "pc (fst (step C s Pull)) = Finished"
    if "pc s = NotStarted \<or> (\<exists>buf dn d. pc s = YieldedLine buf dn d)"
    using that assms by (auto simp: aborted_simps)
  show "snd (step C s TimerDone) = [Done]" and "pc (fst (step C s TimerDone)) = Finished"
    if "pc s = Sleeping delay" for delay
    using that assms by (auto simp: aborted_simps)
  show "step C s e = (s, [])" if "pc s = Sleeping delay" and "e \<noteq> TimerDone" for delay
    using that assms by (cases e) (auto simp: aborted_simps split: option.splits)
qed

theorem stop_effect_witness:
  "aborted (fst (exec (sample_config [(''feed'', JStr ''continuous'')]) init
      [Pull, FetchOk \<lparr>ok = True, status = 200, has_body = True\<rparr>,
       ReadChunk (ascii ''{\"seq\":1}'' @ [lf] @ ascii ''{\"seq\":2}'' @ [lf]), Stop]))
   \<and> snd (exec (sample_config [(''feed'', JStr ''continuous'')]) init
      [Pull, FetchOk \<lparr>ok = True, status = 200, has_body = True\<rparr>,
       ReadChunk (ascii ''{\"seq\":1}'' @ [lf] @ ascii ''{\"seq\":2}'' @ [lf]), Stop])
     = [Request \<lparr>req_method = GET, req_query = [(''feed'', JStr ''continuous'')],
                 req_body = None\<rparr>, Yield (JObj [(''seq'', JNum 1)])]
   \<and> snd (step (sample_config [(''feed'', JStr ''continuous'')])
        (fst (exec (sample_config [(''feed'', JStr ''continuous'')]) init
          [Pull, FetchOk \<lparr>ok = True, status = 200, has_body = True\<rparr>,
           ReadChunk (ascii ''{\"seq\":1}'' @ [lf] @ ascii ''{\"seq\":2}'' @ [lf]), Stop]))
        Pull) = [Done]"
proof -
  let ?C = "sample_config [(''feed'', JStr ''continuous'')]"
  let ?evs = "[Pull, FetchOk \<lparr>ok = True, status = 200, has_body = True\<rparr>,
       ReadChunk (ascii ''{\"seq\":1}'' @ [lf] @ ascii ''{\"seq\":2}'' @ [lf]), Stop]"
  have run1: "fst (exec ?C init ?evs) =
      \<lparr>pc = YieldedLine (of_string ''{\"seq\":2}'' @ [10]) False (utf8_init\<lparr>bom_seen := True\<rparr>),
        activeSeq = Some (JNum 1), aborted = True, retryCount = 0, heartbeatTimeout = None\<rparr>"
    by (simp add: eval_defs)
  have run2: "snd (exec ?C init ?evs) =
       [Request \<lparr>req_method = GET, req_query = [(''feed'', JStr ''continuous'')],
                 req_body = None\<rparr>, Yield (JObj [(''seq'', JNum 1)])]"
    by (simp add: eval_defs)
  have a: "aborted (fst (exec ?C init ?evs))"
    and p: "pc (fst (exec ?C init ?evs)) = NotStarted
        \<or> (\<exists>buf dn d. pc (fst (exec ?C init ?evs)) = YieldedLine buf dn d)"
    unfolding run1 by auto
  from stop_effect [OF a, of ?C init Pull] p
  have "snd (step ?C (fst (exec ?C init ?evs)) Pull) = [Done]"
    by blast
  with a run2 show ?thesis by (simp del: exec.simps)
qed

text \<open>
  Claim C9 as stated has a stop during the backoff sleep end the iteration at once;
  after the stop the generator still sleeps and the pending pull has not completed.
\<close>

theorem backoff_sleep_counterexample:
  "pc (fst (exec (sample_config [(''feed'', JStr ''continuous''), (''live'', JBool True)]) init
       [Pull, FetchFail, Stop])) = Sleeping 250
   \<and> snd (exec (sample_config [(''feed'', JStr ''continuous''), (''live'', JBool True)]) init
       [Pull, FetchFail, Stop])
     = [Request \<lparr>req_method = GET, req_query = [(''feed'', JStr ''continuous'')],
                 req_body = None\<rparr>]"
  by (simp add: eval_defs)

section \<open>The end of an iteration\<close>

lemma finished_on_error: "pc (fst (on_error C s e)) = Finished \<Longrightarrow> aborted (fst (on_error C s e))"
  by (simp add: on_error_def Let_def split: if_splits)

lemma finished_connect: "pc (fst (connect C s)) = Finished \<Longrightarrow> aborted (fst (connect C s))"
  by (cases "buildUrl (options C) (activeSeq s)")
     (auto simp: connect_def Let_def finished_on_error split: if_splits)

lemma finished_batch_loop:
  "pc (fst (batch_loop C s rs ls)) = Finished \<Longrightarrow> aborted (fst (batch_loop C s rs ls))"
  by (auto simp: batch_loop_def Let_def finished_on_error finished_connect
           split: list.splits sum.splits if_splits)

lemma finished_read_head:
  "pc (fst (read_head C s buf d)) = Finished \<Longrightarrow> aborted (fst (read_head C s buf d))"
  by (auto simp: read_head_def finished_connect split: if_splits)

lemma finished_lines_loop:
  "pc (fst (lines_loop C s buf dn d)) = Finished \<Longrightarrow> aborted (fst (lines_loop C s buf dn d))"
  using lines_loop_shape [OF refl, of C s buf dn d]
  by (auto simp: finished_on_error)

lemma finished_on_response:
  "pc (fst (on_response C s r)) = Finished \<Longrightarrow> aborted (fst (on_response C s r))"
  by (auto simp: on_response_def finished_on_error finished_read_head split: if_splits)

lemmas finished_simps = finished_on_error finished_connect finished_batch_loop
  finished_read_head finished_lines_loop finished_on_response

lemma finished_step:
  assumes "pc s \<noteq> Finished" and "pc s \<noteq> NotStarted \<or> e \<noteq> Return"
    and "pc (fst (step C s e)) = Finished"
  shows "aborted (fst (step C s e))"
  using assms
  by (cases e; cases "pc s")
     (auto simp: finished_simps stop_def split: option.splits prod.splits if_splits)

text \<open>
  Claim C10: every step that ends an iteration which has begun (exhaustion, an error
  thrown, \<open>return()\<close> at a \<open>yield\<close>) leaves the controller of the instance
  aborted, and so does \<open>stop()\<close>; the flag is never cleared, also not by a new
  iteration; and the first pull of a new iteration on an aborted instance completes it
  at once, with no record and no request. (\<open>return()\<close> before the first \<open>next()\<close>
  never enters the generator body and aborts nothing.)
\<close>

theorem abort_on_end:
  "(pc s \<noteq> Finished \<and> (pc s \<noteq> NotStarted \<or> e \<noteq> Return)
      \<and> pc (fst (step C s e)) = Finished \<longrightarrow> aborted (fst (step C s e)))
   \<and> aborted (fst (step C s Stop))
   \<and> (aborted s' \<longrightarrow>
        aborted (fst (step C s' e')) \<and> aborted (iterate s')
        \<and> step C (iterate s') Pull
            = (s'\<lparr>pc := Finished, retryCount := 0, heartbeatTimeout := None\<rparr>, [Done]))"
proof (intro conjI impI)
  show "aborted (fst (step C s e))"
    if "pc s \<noteq> Finished \<and> (pc s \<noteq> NotStarted \<or> e \<noteq> Return)
      \<and> pc (fst (step C s e)) = Finished"
    using that finished_step [of s e C] by blast
  show "aborted (fst (step C s Stop))" by simp
  assume a: "aborted s'"
  show "aborted (fst (step C s' e'))"
    using aborted_step [OF a, of C e'] by (auto simp: silent_def split: if_splits)
  show "aborted (iterate s')" using a by (simp add: iterate_def)
  show "step C (iterate s') Pull
            = (s'\<lparr>pc := Finished, retryCount := 0, heartbeatTimeout := None\<rparr>, [Done])"
    using a by (simp add: iterate_def aborted_connect finish_def)
qed

theorem abort_on_end_witness:
  "pc (init\<lparr>pc := YieldedLine [] False utf8_init\<rparr>) \<noteq> Finished
   \<and> pc (init\<lparr>pc := YieldedLine [] False utf8_init\<rparr>) \<noteq> NotStarted
   \<and> pc (fst (step (sample_config [(''feed'', JStr ''continuous'')])
          (init\<lparr>pc := YieldedLine [] False utf8_init\<rparr>) Return)) = Finished
   \<and> aborted (fst (step (sample_config [(''feed'', JStr ''continuous'')])
          (init\<lparr>pc := YieldedLine [] False utf8_init\<rparr>) Return))
   \<and> step (sample_config [(''feed'', JStr ''continuous'')])
        (iterate (fst (step (sample_config [(''feed'', JStr ''continuous'')])
          (init\<lparr>pc := YieldedLine [] False utf8_init\<rparr>) Return))) Pull
      = (init\<lparr>pc := Finished, aborted := True\<rparr>, [Done])"
proof -
  let ?C = "sample_config [(''feed'', JStr ''continuous'')]"
  let ?s = "init\<lparr>pc := YieldedLine [] False utf8_init\<rparr>"
  have h: "pc ?s \<noteq> Finished \<and> (pc ?s \<noteq> NotStarted \<or> Return \<noteq> Return)
      \<and> pc (fst (step ?C ?s Return)) = Finished"
    by (simp add: finish_def)
  have 1: "aborted (fst (step ?C ?s Return))"
    using abort_on_end [of ?s Return ?C] h by blast
  have 2: "step ?C (iterate (fst (step ?C ?s Return))) Pull
      = ((fst (step ?C ?s Return))\<lparr>pc := Finished, retryCount := 0, heartbeatTimeout := None\<rparr>,
         [Done])"
    using abort_on_end [of _ _ ?C "fst (step ?C ?s Return)"] 1 by blast
  have 3: "(fst (step ?C ?s Return))\<lparr>pc := Finished, retryCount := 0, heartbeatTimeout := None\<rparr>
      = init\<lparr>pc := Finished, aborted := True\<rparr>"
    by (simp add: finish_def stop_def init_def)
  from h 1 2 3 show ?thesis by simp
qed

section \<open>Errors\<close>

lemma trim_Nil [simp]: "trim [] = []"
  by (simp add: trim_def)

lemma classify_Nil [simp]: "classify C [] = Blank"
  by (simp add: classify_def startsWith_def of_string_def)

lemma payload_index_truthy:
  assumes "classify C (trim (take n buf)) = Payload l"
  shows "index_truthy (indexOf_nl_from b n)"
proof -
  have "n \<noteq> 0" using assms by (cases n) simp_all
  then show ?thesis
    by (auto simp: index_truthy_def indexOf_nl_from_def)
qed

lemma line_raises_lines_loop:
  "line_raises C done buf l \<Longrightarrow> \<not> aborted s \<Longrightarrow>
     lines_loop C s buf done d = on_error C s (ParseError l)"
proof (induction rule: line_raises.induct)
  case (bad_line buf n l)
  then show ?case
    by (subst lines_loop.simps) (simp add: payload_index_truthy)
next
  case (after_skip buf n l)
  then show ?case
    by (subst lines_loop.simps) simp
next
  case (after_blank buf n l)
  then show ?case
    by (subst lines_loop.simps) simp
qed

lemma set_last_seq_fields:
  "aborted (set_last_seq s ls) = aborted s"
  "pc (set_last_seq s ls) = pc s"
  "retryCount (set_last_seq s ls) = retryCount s"
  "heartbeatTimeout (set_last_seq s ls) = heartbeatTimeout s"
  by (simp_all add: set_last_seq_def split: option.splits)

lemma raises_step:
  assumes "raises C s e err"
  shows "\<exists>s1. step C s e = on_error C s1 err \<and> aborted s1 = aborted s
           \<and> (pc s \<noteq> NotStarted \<longrightarrow> retryCount s1 = retryCount s)"
  using assms
proof cases
  case (bad_line_read buf d bytes l)
  show ?thesis
  proof (cases "aborted s")
    case True
    with bad_line_read show ?thesis
      by (intro exI [of _ "resetHeartbeat C s"])
         (simp add: aborted_lines_loop aborted_on_error split: prod.splits)
  next
    case False
    with bad_line_read show ?thesis
      by (intro exI [of _ "resetHeartbeat C s"])
         (auto simp: line_raises_lines_loop split: prod.splits)
  qed
next
  case (bad_line_end buf d l)
  show ?thesis
  proof (cases "aborted s")
    case True
    with bad_line_end show ?thesis
      by (intro exI [of _ "resetHeartbeat C s"])
         (simp add: aborted_lines_loop aborted_on_error)
  next
    case False
    with bad_line_end show ?thesis
      by (intro exI [of _ "resetHeartbeat C s"]) (simp add: line_raises_lines_loop)
  qed
next
  case (bad_line_next buf fin d l)
  show ?thesis
  proof (cases "aborted s")
    case True
    with bad_line_next show ?thesis
      by (intro exI [of _ s]) (simp add: aborted_lines_loop aborted_on_error)
  next
    case False
    with bad_line_next show ?thesis
      by (intro exI [of _ s]) (simp add: line_raises_lines_loop)
  qed
next
  case url_first
  then show ?thesis
    by (intro exI [of _ "resetHeartbeat C (s\<lparr>retryCount := 0, heartbeatTimeout := None\<rparr>)"])
       (simp add: connect_def)
next
  case (url_retry delay)
  then show ?thesis
    by (intro exI [of _ "resetHeartbeat C s"]) (simp add: connect_def)
next
  case (url_poll_first ls)
  then show ?thesis
    by (intro exI [of _ "resetHeartbeat C (set_last_seq s ls)"])
       (simp add: batch_loop_def connect_def set_last_seq_fields)
next
  case (url_poll_next ls)
  then show ?thesis
    by (intro exI [of _ "resetHeartbeat C (set_last_seq s ls)"])
       (simp add: batch_loop_def connect_def set_last_seq_fields)
qed (auto simp: on_response_def batch_loop_def intro!: exI [of _ s])

lemma finish_Throw: "Throw err \<in> set (snd (finish s x)) \<longleftrightarrow> x = Throw err"
  by (auto simp: finish_def)

lemma on_error_Throw:
  "Throw err \<in> set (snd (on_error C s e)) \<Longrightarrow> err = e \<and> \<not> aborted s"
  by (auto simp: on_error_def finish_def Let_def split: if_splits)

lemma connect_Throw:
  "Throw err \<in> set (snd (connect C s)) \<Longrightarrow>
     \<not> aborted s \<and> buildUrl (options C) (activeSeq s) = Inl err"
  by (auto simp: connect_def finish_def Let_def resetHeartbeat_def
      dest!: on_error_Throw split: if_splits sum.splits)

lemma lines_loop_Throw:
  "Throw err \<in> set (snd (lines_loop C s buf dn d)) \<Longrightarrow>
     \<exists>l. err = ParseError l \<and> line_raises C dn buf l"
proof (induction C s buf dn d rule: lines_loop.induct)
  case (1 C s buffer dn d)
  note prem = "1.prems"
  show ?case
  proof (cases "indexOf_nl buffer")
    case None
    with prem show ?thesis
      by (subst (asm) lines_loop.simps) (auto simp: read_head_def finish_def split: if_splits)
  next
    case (Some n)
    show ?thesis
    proof (cases "aborted s")
      case True
      with prem Some show ?thesis
        by (subst (asm) lines_loop.simps) (simp add: finish_def)
    next
      case na: False
      show ?thesis
      proof (cases "classify C (trim (take n buffer))")
        case Skip
        with prem Some na have "Throw err \<in> set (snd (lines_loop C s (drop (Suc n) buffer) dn d))"
          by (subst (asm) lines_loop.simps) simp
        from "1.IH"(1) [OF Some na refl refl Skip this] Some Skip show ?thesis
          by (auto intro: after_skip)
      next
        case Blank
        show ?thesis
        proof (cases dn)
          case True
          with prem Some na Blank show ?thesis
            by (subst (asm) lines_loop.simps) (simp add: finish_def)
        next
          case False
          with prem Some na Blank
          have "Throw err \<in> set (snd (lines_loop C s (drop (Suc n) buffer) dn d))"
            by (subst (asm) lines_loop.simps) simp
          from "1.IH"(2) [OF Some na refl refl Blank False this] Some Blank False show ?thesis
            by (auto intro: after_blank)
        qed
      next
        case (Payload l)
        show ?thesis
        proof (cases "parse_change C l")
          case None
          with prem Some na Payload have "Throw err \<in> set (snd (on_error C s (ParseError l)))"
            by (subst (asm) lines_loop.simps) (simp add: payload_index_truthy)
          then have "err = ParseError l" by (auto dest: on_error_Throw)
          with Some Payload None show ?thesis by (auto intro: bad_line)
        next
          case (Some a)
          with prem \<open>indexOf_nl buffer = Some n\<close> na Payload show ?thesis
            by (subst (asm) lines_loop.simps) (auto split: prod.splits)
        qed
      qed
    qed
  qed
qed

lemma prop_seq_Inl: "prop_seq c = Inl e \<Longrightarrow> c = JNull \<and> e = TypeError"
  by (cases c) auto

lemma batch_loop_Throw:
  assumes "Throw err \<in> set (snd (batch_loop C s rs ls))"
  shows "(\<exists>rest. rs = JNull # rest \<and> err = TypeError)
       \<or> (rs = [] \<and> \<not> aborted s \<and> isLongpoll (options C)
            \<and> buildUrl (options C) (activeSeq (set_last_seq s ls)) = Inl err)"
proof (cases rs)
  case Nil
  with assms show ?thesis
    by (auto simp: batch_loop_def Let_def finish_def set_last_seq_fields
        dest!: connect_Throw split: if_splits)
next
  case (Cons c rest)
  with assms show ?thesis
    by (auto simp: batch_loop_def dest!: on_error_Throw prop_seq_Inl split: sum.splits)
qed

text \<open>
  Conversely, \<open>raises\<close> leaves out no place where the code throws: every error that a
  step shows to the consumer is one of them.
\<close>

lemma throw_raises:
  assumes "Throw err \<in> set (snd (step C s e))"
  shows "raises C s e err"
proof (cases e)
  case Pull
  show ?thesis
  proof (cases "pc s")
    case NotStarted
    with assms Pull show ?thesis
      by (auto dest!: connect_Throw intro: url_first)
  next
    case (YieldedBatch rs ls)
    with assms Pull have "Throw err \<in> set (snd (batch_loop C s rs ls))" by simp
    from batch_loop_Throw [OF this] YieldedBatch Pull show ?thesis
      by (auto intro: null_next url_poll_next)
  next
    case (YieldedLine buf dn d)
    with assms Pull have "Throw err \<in> set (snd (lines_loop C s buf dn d))" by simp
    from lines_loop_Throw [OF this] YieldedLine Pull show ?thesis
      by (auto intro: bad_line_next)
  qed (use assms Pull in auto)
next
  case Return
  with assms show ?thesis by (auto simp: finish_def split: place.splits)
next
  case Stop
  with assms show ?thesis by simp
next
  case (FetchOk r)
  with assms show ?thesis
    by (auto simp: on_response_def read_head_def finish_def
        dest!: on_error_Throw connect_Throw intro: no_reader split: place.splits if_splits)
next
  case FetchFail
  with assms show ?thesis
    by (auto dest!: on_error_Throw intro: fetch_rejects split: place.splits)
next
  case (TextDone t)
  with assms show ?thesis
    by (auto dest!: on_error_Throw intro: http_status split: place.splits)
next
  case TextFail
  with assms show ?thesis
    by (auto dest!: on_error_Throw intro: text_rejects split: place.splits)
next
  case (JsonBody rs ls)
  show ?thesis
  proof (cases "pc s")
    case AwaitJson
    with assms JsonBody have "Throw err \<in> set (snd (batch_loop C s rs ls))" by simp
    from batch_loop_Throw [OF this] AwaitJson JsonBody show ?thesis
      by (auto intro: null_first url_poll_first)
  qed (use assms JsonBody in auto)
next
  case JsonFail
  with assms show ?thesis
    by (auto dest!: on_error_Throw intro: json_rejects split: place.splits)
next
  case (ReadChunk bytes)
  show ?thesis
  proof (cases "pc s")
    case (AwaitRead buf d)
    with assms ReadChunk
    have "Throw err \<in> set (snd (lines_loop C (resetHeartbeat C s) (buf @ snd (decode d bytes)) False
        (fst (decode d bytes))))"
      by (simp split: prod.splits)
    from lines_loop_Throw [OF this] AwaitRead ReadChunk show ?thesis
      by (auto intro: bad_line_read)
  qed (use assms ReadChunk in auto)
next
  case ReadEnd
  show ?thesis
  proof (cases "pc s")
    case (AwaitRead buf d)
    with assms ReadEnd
    have "Throw err \<in> set (snd (lines_loop C (resetHeartbeat C s) buf True d))"
      by simp
    from lines_loop_Throw [OF this] AwaitRead ReadEnd show ?thesis
      by (auto intro: bad_line_end)
  qed (use assms ReadEnd in auto)
next
  case ReadFail
  with assms show ?thesis
    by (auto dest!: on_error_Throw intro: read_rejects split: place.splits)
next
  case HeartbeatExpired
  with assms show ?thesis
    by (auto dest!: on_error_Throw intro: heartbeat_expires split: option.splits if_splits)
next
  case TimerDone
  with assms show ?thesis
    by (auto dest!: connect_Throw intro: url_retry split: place.splits)
qed



section \<open>Retries\<close>

lemma retry_on_error: "retryCount s \<le> retryCount (fst (on_error C s e))"
  by (simp add: on_error_def Let_def)

lemma retry_connect: "retryCount s \<le> retryCount (fst (connect C s))"
  using retry_on_error [of "resetHeartbeat C s" C]
  by (cases "buildUrl (options C) (activeSeq s)") (auto simp: connect_def Let_def)

lemma retry_batch_loop: "retryCount s \<le> retryCount (fst (batch_loop C s rs ls))"
  using retry_connect [of "set_last_seq s ls" C]
  by (auto simp: batch_loop_def Let_def retry_on_error set_last_seq_fields
           split: list.splits sum.splits)

lemma retry_read_head: "retryCount s \<le> retryCount (fst (read_head C s buf d))"
  by (simp add: read_head_def retry_connect)

lemma retry_lines_loop: "retryCount s \<le> retryCount (fst (lines_loop C s buf dn d))"
  using lines_loop_shape [OF refl, of C s buf dn d]
  by (auto simp: retry_on_error)

lemma retry_on_response: "retryCount s \<le> retryCount (fst (on_response C s r))"
  by (simp add: on_response_def retry_on_error retry_read_head)

lemmas retry_simps = retry_on_error retry_connect retry_batch_loop retry_read_head
  retry_lines_loop retry_on_response

lemma retry_step:
  assumes "pc s \<noteq> NotStarted"
  shows "retryCount s \<le> retryCount (fst (step C s e))"
proof (cases e)
  case (ReadChunk bytes)
  then show ?thesis
    using retry_lines_loop [of "resetHeartbeat C s" C]
    by (cases "pc s") (auto split: prod.splits)
next
  case ReadEnd
  then show ?thesis
    using retry_lines_loop [of "resetHeartbeat C s" C]
    by (cases "pc s") auto
qed (use assms in \<open>cases "pc s"; auto simp: retry_simps stop_def split: option.splits\<close>)+

text \<open>
  Claim C5: on every failure with \<open>live\<close> set and no abort (in a generator that has
  started), \<open>retryCount\<close> goes up by one first and the generator then sleeps for
  min(2 ^ retryCount * 100, 30000) ms plus a jitter in [0, 100), the jitter being
  100 times a \<open>Math.random()\<close> value in [0, 1); and no step of a started generator,
  a successful reconnect included, lowers \<open>retryCount\<close>.
\<close>

theorem retry_backoff:
  assumes "raises C s e err" and "\<not> aborted s" and "opt_truthy (options C) ''live''"
    and "pc s \<noteq> NotStarted"
    and "0 \<le> random C (retryCount s + 1)" and "random C (retryCount s + 1) < 1"
  shows "retryCount (fst (step C s e)) = retryCount s + 1
     \<and> (\<exists>jitter. 0 \<le> jitter \<and> jitter < 100
          \<and> pc (fst (step C s e))
              = Sleeping (min (2 ^ retryCount (fst (step C s e)) * 100) 30000 + jitter))
     \<and> (pc s' \<noteq> NotStarted \<longrightarrow> retryCount s' \<le> retryCount (fst (step C s' e')))"
proof -
  from raises_step [OF assms(1)] assms(4) obtain s1
    where s1: "step C s e = on_error C s1 err" "aborted s1 = aborted s"
      "retryCount s1 = retryCount s"
    by blast
  with assms(2,3) have st: "step C s e
      = (s1\<lparr>retryCount := retryCount s + 1, heartbeatTimeout := None,
            pc := Sleeping (backoff (retryCount s + 1) + random C (retryCount s + 1) * 100)\<rparr>, [])"
    by (simp add: on_error_def Let_def)
  have "0 \<le> random C (retryCount s + 1) * 100 \<and> random C (retryCount s + 1) * 100 < 100"
    using assms(5,6) by simp
  with st show ?thesis
    using retry_step [of s' C e'] by (auto simp: backoff_def)
qed

theorem retry_backoff_witness:
  "raises (sample_config [(''feed'', JStr ''continuous''), (''live'', JBool True)])
      (init\<lparr>pc := AwaitFetch, retryCount := 2\<rparr>) FetchFail FetchError
   \<and> \<not> aborted (init\<lparr>pc := AwaitFetch, retryCount := 2\<rparr>)
   \<and> opt_truthy (options (sample_config [(''feed'', JStr ''continuous''), (''live'', JBool True)]))
        ''live''
   \<and> pc (init\<lparr>pc := AwaitFetch, retryCount := 2\<rparr>) \<noteq> NotStarted
   \<and> 0 \<le> random (sample_config [(''feed'', JStr ''continuous''), (''live'', JBool True)])
          (retryCount (init\<lparr>pc := AwaitFetch, retryCount := 2\<rparr>) + 1)
   \<and> random (sample_config [(''feed'', JStr ''continuous''), (''live'', JBool True)])
          (retryCount (init\<lparr>pc := AwaitFetch, retryCount := 2\<rparr>) + 1) < 1
   \<and> retryCount (fst (step (sample_config [(''feed'', JStr ''continuous''), (''live'', JBool True)])
          (init\<lparr>pc := AwaitFetch, retryCount := 2\<rparr>) FetchFail)) = 3
   \<and> pc (fst (step (sample_config [(''feed'', JStr ''continuous''), (''live'', JBool True)])
          (init\<lparr>pc := AwaitFetch, retryCount := 2\<rparr>) FetchFail)) = Sleeping 850
   \<and> pc (init\<lparr>pc := AwaitFetch, retryCount := 3\<rparr>) \<noteq> NotStarted
   \<and> retryCount (init\<lparr>pc := AwaitFetch, retryCount := 3\<rparr>)
       \<le> retryCount (fst (step
            (sample_config [(''feed'', JStr ''continuous''), (''live'', JBool True)])
            (init\<lparr>pc := AwaitFetch, retryCount := 3\<rparr>)
            (FetchOk \<lparr>ok = True, status = 200, has_body = True\<rparr>)))"
proof -
  let ?C = "sample_config [(''feed'', JStr ''continuous''), (''live'', JBool True)]"
  let ?s = "init\<lparr>pc := AwaitFetch, retryCount := 2\<rparr>"
  have r: "raises ?C ?s FetchFail FetchError"
    by (rule fetch_rejects) simp
  have h: "\<not> aborted ?s" "opt_truthy (options ?C) ''live''" "pc ?s \<noteq> NotStarted"
    "0 \<le> random ?C (retryCount ?s + 1)" "random ?C (retryCount ?s + 1) < 1"
    by (simp_all add: init_def sample_config_def opt_truthy_def opt_def)
  have p: "pc (fst (step ?C ?s FetchFail)) = Sleeping 850"
    by (simp add: eval_defs)
  let ?s' = "init\<lparr>pc := AwaitFetch, retryCount := 3\<rparr>"
  have n: "pc ?s' \<noteq> NotStarted" by simp
  from retry_backoff [OF r h, of ?s' "FetchOk \<lparr>ok = True, status = 200, has_body = True\<rparr>"]
  have "retryCount (fst (step ?C ?s FetchFail)) = retryCount ?s + 1"
    and m: "retryCount ?s' \<le> retryCount (fst (step ?C ?s'
        (FetchOk \<lparr>ok = True, status = 200, has_body = True\<rparr>)))"
    using n by blast+
  then have "retryCount (fst (step ?C ?s FetchFail)) = 3"
    by (simp add: init_def)
  with r h p n m show ?thesis by blast
qed

section \<open>The cursor\<close>



















section \<open>Chunks\<close>

lemma consume_alt:
  "consume C s =
     (if 0 < pending (pc s)
      then (let r1 = step C s Pull; r2 = consume C (fst r1) in (fst r2, snd r1 @ snd r2))
      else (s, []))"
  by (subst consume.simps) (simp add: split_def Let_def)

lemma lines_all_alt:
  "lines_all C s buf d =
     (let r1 = lines_loop C s buf False d; r2 = consume C (fst r1)
      in (fst r2, snd r1 @ snd r2))"
  by (simp add: lines_all_def split_def Let_def)

lemma decode_append:
  "decode d (a @ b) = (let r1 = decode d a; r2 = decode (fst r1) b in (fst r2, snd r1 @ snd r2))"
  by (induction a arbitrary: d) (simp_all add: split_def Let_def)

lemma stop_pc: "stop (s\<lparr>pc := p\<rparr>) = (stop s)\<lparr>pc := p\<rparr>"
  by (simp add: stop_def)

lemma finish_pc [simp]: "finish (s\<lparr>pc := p\<rparr>) x = finish s x"
  by (simp add: finish_def stop_def)

lemma on_error_pc [simp]: "on_error C (s\<lparr>pc := p\<rparr>) e = on_error C s e"
  by (simp add: on_error_def Let_def)

lemma resetHeartbeat_pc: "resetHeartbeat C (s\<lparr>pc := p\<rparr>) = (resetHeartbeat C s)\<lparr>pc := p\<rparr>"
  by (simp add: resetHeartbeat_def)

lemma connect_pc [simp]: "connect C (s\<lparr>pc := p\<rparr>) = connect C s"
  by (cases "buildUrl (options C) (activeSeq s)")
     (simp_all add: connect_def Let_def resetHeartbeat_pc)

lemma read_head_pc [simp]: "read_head C (s\<lparr>pc := p\<rparr>) buf d = read_head C s buf d"
  by (simp add: read_head_def)

lemma lines_loop_pc: "lines_loop C (s\<lparr>pc := p\<rparr>) buffer done d = lines_loop C s buffer done d"
proof (induction C s buffer "done" d rule: lines_loop.induct)
  case (1 C s buffer dn d)
  show ?case
    apply (subst lines_loop.simps [of C "s\<lparr>pc := p\<rparr>"])
    apply (subst lines_loop.simps [of C s])
    using 1
    apply (auto simp: Let_def split: option.splits line_kind.splits)
    done
qed


lemma consume_idle: "pending (pc s) = 0 \<Longrightarrow> consume C s = (s, [])"
  by (subst consume_alt) simp

lemma lines_all_pc: "lines_all C (s\<lparr>pc := p\<rparr>) buf d = lines_all C s buf d"
  by (simp add: lines_all_alt lines_loop_pc)

lemma lines_all_unfold:
  assumes "\<not> aborted s"
  shows "lines_all C s buf d =
     (case indexOf_nl buf of
        None \<Rightarrow> (s\<lparr>pc := AwaitRead buf d\<rparr>, [])
      | Some n \<Rightarrow>
          (case classify C (trim (take n buf)) of
             Skip \<Rightarrow> lines_all C s (drop (Suc n) buf) d
           | Blank \<Rightarrow> lines_all C s (drop (Suc n) buf) d
           | Payload l \<Rightarrow>
               (case parse_change C l of
                  Some (c, sq) \<Rightarrow>
                    (let r = lines_all C (s\<lparr>activeSeq := sq\<rparr>) (drop (Suc n) buf) d
                     in (fst r, Yield c # snd r))
                | None \<Rightarrow> on_error C s (ParseError l))))"
proof (cases "indexOf_nl buf")
  case None
  with assms show ?thesis
    by (simp add: lines_all_alt lines_loop.simps [of C s buf] read_head_def consume_idle)
next
  case (Some n)
  show ?thesis
  proof (cases "classify C (trim (take n buf))")
    case Skip
    with Some assms show ?thesis
      by (simp add: lines_all_alt lines_loop.simps [of C s buf])
  next
    case Blank
    with Some assms show ?thesis
      by (simp add: lines_all_alt lines_loop.simps [of C s buf])
  next
    case (Payload l)
    show ?thesis
    proof (cases "parse_change C l")
      case None
      with Some Payload assms show ?thesis
        by (simp add: lines_all_alt lines_loop.simps [of C s buf] payload_index_truthy
              consume_idle)
    next
      case (Some a)
      obtain c sq where a: "a = (c, sq)" by (cases a)
      let ?b = "drop (Suc n) buf"
      let ?s1 = "s\<lparr>activeSeq := sq, pc := YieldedLine ?b False d\<rparr>"
      have 1: "lines_loop C s buf False d = (?s1, [Yield c])"
        using \<open>indexOf_nl buf = Some n\<close> Payload Some a assms
        by (simp add: lines_loop.simps [of C s buf])
      have 2: "consume C ?s1 = lines_all C ?s1 ?b d"
        by (subst consume_alt) (simp add: lines_all_alt Let_def)
      have 3: "lines_all C ?s1 ?b d = lines_all C (s\<lparr>activeSeq := sq\<rparr>) ?b d"
        using lines_all_pc [where s = "s\<lparr>activeSeq := sq\<rparr>" and p = "YieldedLine ?b False d"
            and C = C and buf = ?b and d = d]
        by simp
      show ?thesis
        using \<open>indexOf_nl buf = Some n\<close> Payload Some a
        by (simp add: lines_all_alt [of C s buf] 1 2 3 Let_def)
    qed
  qed
qed


lemma indexOf_nl_append: "indexOf_nl x = Some n \<Longrightarrow> indexOf_nl (x @ y) = Some n"
  by (induction x arbitrary: n) (auto split: if_splits)

lemma on_error_not_reading: "pc (fst (on_error C s e)) \<noteq> AwaitRead b d"
  by (simp add: on_error_def Let_def finish_def)

lemma then_lines_Yield:
  "then_lines C (fst r, Yield c # snd r) y d2
     = (fst (then_lines C r y d2), Yield c # snd (then_lines C r y d2))"
  by (simp add: then_lines_def Let_def split: place.splits)

lemma lines_all_append:
  "\<not> aborted s \<Longrightarrow> lines_all C s (x @ y) d2 = then_lines C (lines_all C s x d1) y d2"
proof (induction x arbitrary: s rule: length_induct)
  case (1 x)
  note na = \<open>\<not> aborted s\<close>
  show ?case
  proof (cases "indexOf_nl x")
    case None
    then show ?thesis
      using na by (simp add: lines_all_unfold [of s C x] then_lines_def lines_all_pc)
  next
    case (Some n)
    then have n: "n < length x" by (rule indexOf_nl_less)
    let ?x' = "drop (Suc n) x"
    have len: "length ?x' < length x" using n by simp
    have ix: "indexOf_nl (x @ y) = Some n" "take n (x @ y) = take n x"
      "drop (Suc n) (x @ y) = ?x' @ y"
      using Some n by (simp_all add: indexOf_nl_append)
    have IH: "lines_all C s' (?x' @ y) d2 = then_lines C (lines_all C s' ?x' d1) y d2"
      if "\<not> aborted s'" for s'
      using "1.IH" len that by blast
    have L: "lines_all C s (x @ y) d2 =
          (case classify C (trim (take n x)) of
             Skip \<Rightarrow> lines_all C s (?x' @ y) d2
           | Blank \<Rightarrow> lines_all C s (?x' @ y) d2
           | Payload l \<Rightarrow>
               (case parse_change C l of
                  Some (c, sq) \<Rightarrow>
                    (let r = lines_all C (s\<lparr>activeSeq := sq\<rparr>) (?x' @ y) d2
                     in (fst r, Yield c # snd r))
                | None \<Rightarrow> on_error C s (ParseError l)))"
      by (subst lines_all_unfold [OF na]) (simp only: ix option.case)
    have R: "lines_all C s x d1 =
          (case classify C (trim (take n x)) of
             Skip \<Rightarrow> lines_all C s ?x' d1
           | Blank \<Rightarrow> lines_all C s ?x' d1
           | Payload l \<Rightarrow>
               (case parse_change C l of
                  Some (c, sq) \<Rightarrow>
                    (let r = lines_all C (s\<lparr>activeSeq := sq\<rparr>) ?x' d1
                     in (fst r, Yield c # snd r))
                | None \<Rightarrow> on_error C s (ParseError l)))"
      by (subst lines_all_unfold [OF na]) (simp only: Some option.case)
    show ?thesis
    proof (cases "classify C (trim (take n x))")
      case Skip
      then show ?thesis
        unfolding L R using IH [OF na] by simp
    next
      case Blank
      then show ?thesis
        unfolding L R using IH [OF na] by simp
    next
      case (Payload l)
      show ?thesis
      proof (cases "parse_change C l")
        case None
        then show ?thesis
          unfolding L R using Payload
          by (simp add: then_lines_def on_error_not_reading split: place.splits)
      next
        case (Some a)
        obtain c sq where a: "a = (c, sq)" by (cases a)
        have "\<not> aborted (s\<lparr>activeSeq := sq\<rparr>)" using na by simp
        from IH [OF this] show ?thesis
          unfolding L R using Payload Some a
          by (simp add: Let_def then_lines_Yield)
      qed
    qed
  qed
qed

lemma chunk_alt:
  "chunk C s e = (let r1 = step C s e; r2 = consume C (fst r1) in (fst r2, snd r1 @ snd r2))"
  by (simp add: chunk_def split_def Let_def)

lemma feed_Cons:
  "feed C s (e # es)
     = (let r = chunk C s e; r3 = feed C (fst r) es in (fst r3, snd r @ snd r3))"
  by (simp add: chunk_def split_def Let_def)

lemma deaf_pending: "deaf p \<Longrightarrow> pending p = 0"
  by (cases p) simp_all

lemma deaf_on_error [simp]: "deaf (pc (fst (on_error C s e)))"
  by (simp add: on_error_def Let_def finish_def)

lemma resetHeartbeat_activeSeq:
  "resetHeartbeat C (s\<lparr>activeSeq := a\<rparr>) = (resetHeartbeat C s)\<lparr>activeSeq := a\<rparr>"
  by (simp add: resetHeartbeat_def)

lemma lines_all_state:
  "\<not> aborted s \<Longrightarrow> resetHeartbeat C s = s \<Longrightarrow>
     (reading C (fst (lines_all C s buf d))
        \<and> (\<exists>rem. pc (fst (lines_all C s buf d)) = AwaitRead rem d))
     \<or> deaf (pc (fst (lines_all C s buf d)))"
proof (induction buf arbitrary: s rule: length_induct)
  case (1 buf)
  note na = \<open>\<not> aborted s\<close> and rs = \<open>resetHeartbeat C s = s\<close>
  show ?case
  proof (cases "indexOf_nl buf")
    case None
    then show ?thesis
      using na rs
      by (subst (1 2 3) lines_all_unfold [OF na]) (simp add: reading_def resetHeartbeat_pc)
  next
    case (Some n)
    then have "length (drop (Suc n) buf) < length buf"
      using indexOf_nl_less [OF Some] by simp
    then have IH: "(reading C (fst (lines_all C s' (drop (Suc n) buf) d))
        \<and> (\<exists>rem. pc (fst (lines_all C s' (drop (Suc n) buf) d)) = AwaitRead rem d))
        \<or> deaf (pc (fst (lines_all C s' (drop (Suc n) buf) d)))"
      if "\<not> aborted s'" "resetHeartbeat C s' = s'" for s'
      using "1.IH" that by blast
    have s': "\<not> aborted (s\<lparr>activeSeq := sq\<rparr>)"
      "resetHeartbeat C (s\<lparr>activeSeq := sq\<rparr>) = s\<lparr>activeSeq := sq\<rparr>" for sq
      using na rs by (simp_all add: resetHeartbeat_activeSeq)
    show ?thesis
      using Some IH [OF na rs] IH [OF s']
      by (subst (1 2 3) lines_all_unfold [OF na])
         (auto simp: Let_def split: line_kind.splits option.splits)
  qed
qed


lemma chunk_deaf:
  "deaf (pc s) \<Longrightarrow> chunk C s (ReadChunk bytes) = (s, [])"
  "deaf (pc s) \<Longrightarrow> chunk C s ReadEnd = (s, [])"
  by (cases "pc s"; simp add: chunk_alt consume_idle)+

lemma chunk_reading:
  assumes "reading C s" and "pc s = AwaitRead buf d"
  shows "chunk C s (ReadChunk bytes)
           = lines_all C s (buf @ snd (decode d bytes)) (fst (decode d bytes))"
  using assms
  by (simp add: chunk_alt lines_all_alt reading_def split_def Let_def)

lemma chunk_state:
  assumes "reading C s \<or> deaf (pc s)"
  shows "reading C (fst (chunk C s (ReadChunk bytes)))
         \<or> deaf (pc (fst (chunk C s (ReadChunk bytes))))"
  using assms
proof
  assume r: "reading C s"
  then obtain buf d where p: "pc s = AwaitRead buf d" by (auto simp: reading_def)
  from r have "\<not> aborted s" "resetHeartbeat C s = s" by (simp_all add: reading_def)
  from lines_all_state [OF this] show ?thesis
    unfolding chunk_reading [OF r p] by blast
qed (simp add: chunk_deaf)

lemma feed_merge:
  assumes "reading C s \<or> deaf (pc s)"
  shows "feed C s (ReadChunk a # ReadChunk b # es) = feed C s (ReadChunk (a @ b) # es)"
  using assms
proof
  assume "deaf (pc s)"
  then show ?thesis
    by (simp only: feed_Cons chunk_deaf Let_def fst_conv snd_conv) simp
next
  assume r: "reading C s"
  then obtain buf d where p: "pc s = AwaitRead buf d" by (auto simp: reading_def)
  from r have na: "\<not> aborted s" and rs: "resetHeartbeat C s = s"
    by (simp_all add: reading_def)
  let ?da = "fst (decode d a)" and ?ta = "snd (decode d a)"
  let ?dab = "fst (decode ?da b)" and ?tb = "snd (decode ?da b)"
  let ?r = "lines_all C s (buf @ ?ta) ?da"
  have dec: "decode d (a @ b) = (?dab, ?ta @ ?tb)"
    by (simp add: decode_append Let_def)
  have whole: "chunk C s (ReadChunk (a @ b)) = then_lines C ?r ?tb ?dab"
    unfolding chunk_reading [OF r p] dec
    using lines_all_append [OF na, of C "buf @ ?ta" ?tb ?dab ?da] by simp
  have first: "chunk C s (ReadChunk a) = ?r"
    by (rule chunk_reading [OF r p])
  have second: "(let r2 = chunk C (fst ?r) (ReadChunk b) in (fst r2, snd ?r @ snd r2))
      = then_lines C ?r ?tb ?dab"
    using lines_all_state [OF na rs, of "buf @ ?ta" ?da]
  proof
    assume "reading C (fst ?r) \<and> (\<exists>rem. pc (fst ?r) = AwaitRead rem ?da)"
    then obtain rem where r': "reading C (fst ?r)" and p': "pc (fst ?r) = AwaitRead rem ?da"
      by blast
    show ?thesis
      unfolding chunk_reading [OF r' p'] by (simp add: then_lines_def p' Let_def)
  next
    assume d: "deaf (pc (fst ?r))"
    then show ?thesis
      by (cases "pc (fst ?r)") (simp_all add: chunk_deaf then_lines_def)
  qed
  from second have third: "then_lines C ?r ?tb ?dab
      = (fst (chunk C (fst ?r) (ReadChunk b)), snd ?r @ snd (chunk C (fst ?r) (ReadChunk b)))"
    by (simp add: Let_def)
  show ?thesis
    unfolding feed_Cons [of C s "ReadChunk (a @ b)"] feed_Cons [of C s "ReadChunk a"]
      feed_Cons [of C _ "ReadChunk b"] whole first third
    by (simp add: Let_def)
qed


lemma chunk_empty:
  assumes "reading C s \<or> deaf (pc s)"
  shows "chunk C s (ReadChunk []) = (s, [])"
  using assms
proof
  assume r: "reading C s"
  then obtain buf d where p: "pc s = AwaitRead buf d" and n: "indexOf_nl buf = None"
    by (auto simp: reading_def)
  from r have na: "\<not> aborted s" by (simp add: reading_def)
  have "s\<lparr>pc := AwaitRead buf d\<rparr> = s" using p by (metis state.surjective state.update_convs(1) state.select_convs(1))
  then show ?thesis
    unfolding chunk_reading [OF r p] using n
    by (simp add: lines_all_unfold [OF na])
qed (simp add: chunk_deaf)

lemma feed_chunks:
  assumes "reading C s \<or> deaf (pc s)"
  shows "feed C s (map ReadChunk cs @ es) = feed C s (ReadChunk (concat cs) # es)"
  using assms
proof (induction cs arbitrary: s)
  case Nil
  then show ?case
    using chunk_empty [OF Nil.prems] by (simp add: feed_Cons Let_def del: feed.simps)
next
  case (Cons c cs)
  let ?r = "chunk C s (ReadChunk c)"
  have st: "reading C (fst ?r) \<or> deaf (pc (fst ?r))"
    using Cons.prems by (rule chunk_state)
  have "feed C s (map ReadChunk (c # cs) @ es)
      = (let r3 = feed C (fst ?r) (map ReadChunk cs @ es) in (fst r3, snd ?r @ snd r3))"
    by (simp only: list.map append_Cons feed_Cons Let_def)
  also have "\<dots> = (let r3 = feed C (fst ?r) (ReadChunk (concat cs) # es)
      in (fst r3, snd ?r @ snd r3))"
    by (simp only: Cons.IH [OF st])
  also have "\<dots> = feed C s (ReadChunk c # ReadChunk (concat cs) # es)"
    by (simp only: feed_Cons [of C s "ReadChunk c"] Let_def)
  also have "\<dots> = feed C s (ReadChunk (c @ concat cs) # es)"
    using Cons.prems by (rule feed_merge)
  finally show ?case by simp
qed

lemma resetHeartbeat_idem: "resetHeartbeat C (resetHeartbeat C s) = resetHeartbeat C s"
  by (simp add: resetHeartbeat_def)

lemma connect_state:
  "deaf (pc (fst (connect C s)))
   \<and> (pc (fst (connect C s)) = AwaitFetch
        \<longrightarrow> \<not> aborted (fst (connect C s))
            \<and> resetHeartbeat C (fst (connect C s)) = fst (connect C s))"
  by (cases "buildUrl (options C) (activeSeq s)")
     (auto simp: connect_def Let_def finish_def on_error_def resetHeartbeat_pc
        resetHeartbeat_idem)

lemma on_response_state:
  assumes "\<not> aborted s" and "resetHeartbeat C s = s"
  shows "reading C (fst (on_response C s r)) \<or> deaf (pc (fst (on_response C s r)))"
  using assms
  by (auto simp: on_response_def read_head_def reading_def resetHeartbeat_pc)

lemma start_state:
  assumes "pc s = NotStarted"
  shows "reading C (fst (feed C s [Pull, FetchOk r]))
         \<or> deaf (pc (fst (feed C s [Pull, FetchOk r])))"
proof -
  let ?s0 = "s\<lparr>retryCount := 0, heartbeatTimeout := None\<rparr>"
  let ?s1 = "fst (connect C ?s0)"
  have c: "chunk C s Pull = connect C ?s0"
    using assms connect_state [of C ?s0]
    by (simp add: chunk_alt consume_idle deaf_pending)
  have f: "fst (feed C s [Pull, FetchOk r]) = fst (chunk C ?s1 (FetchOk r))"
    by (simp add: feed_Cons c Let_def del: feed.simps(2))
  show ?thesis
  proof (cases "pc ?s1 = AwaitFetch")
    case True
    with connect_state [of C ?s0] have "\<not> aborted ?s1" "resetHeartbeat C ?s1 = ?s1"
      by simp_all
    from on_response_state [OF this, of r]
    have "reading C (fst (on_response C ?s1 r)) \<or> deaf (pc (fst (on_response C ?s1 r)))" .
    moreover have "pending (pc (fst (on_response C ?s1 r))) = 0"
      using calculation by (auto simp: reading_def deaf_pending)
    ultimately show ?thesis
      unfolding f using True by (simp add: chunk_alt consume_idle)
  next
    case False
    with connect_state [of C ?s0] have "deaf (pc ?s1)" by simp
    with False have "chunk C ?s1 (FetchOk r) = (?s1, [])"
      by (cases "pc ?s1") (simp_all add: chunk_alt consume_idle)
    with \<open>deaf (pc ?s1)\<close> show ?thesis
      unfolding f by simp
  qed
qed

lemma feed_append:
  "feed C s (es1 @ es2)
     = (let r1 = feed C s es1; r2 = feed C (fst r1) es2 in (fst r2, snd r1 @ snd r2))"
  by (induction es1 arbitrary: s) (simp_all add: Let_def split_def)

text \<open>
  Claim C2: for a new iteration, whose consumer pulls every record, the outcome of a
  connection (the records yielded, in order, how the iteration goes on or ends, and
  the state left behind) depends only on the bytes of the body, not on the chunks in
  which they arrive: two chunkings of the same bytes give the same run, wherever the
  cuts fall, inside a line or inside a UTF-8 character. This holds for every feed, the
  continuous and eventsource feeds in particular.
\<close>

theorem chunking_invariance:
  assumes "concat chunks1 = concat chunks2" and "pc s = NotStarted"
  shows "run_stream C s r chunks1 = run_stream C s r chunks2"
proof -
  let ?r0 = "feed C s [Pull, FetchOk r]"
  have split: "run_stream C s r cs
      = (let r3 = feed C (fst ?r0) (map ReadChunk cs @ [ReadEnd]) in (fst r3, snd ?r0 @ snd r3))"
    for cs
    using feed_append [of C s "[Pull, FetchOk r]" "map ReadChunk cs @ [ReadEnd]"]
    by (simp add: run_stream_def Let_def del: feed.simps)
  have collapse: "feed C (fst ?r0) (map ReadChunk cs @ [ReadEnd])
      = feed C (fst ?r0) [ReadChunk (concat cs), ReadEnd]" for cs
    using start_state [OF assms(2)] by (rule feed_chunks)
  show ?thesis
    by (simp only: split collapse assms(1))
qed

theorem chunking_invariance_witness:
  "concat [ascii ''{\"seq\":1}'' @ [lf] @ ascii ''{\"seq\":\"'' @ [0xC3],
           [0xA9] @ ascii ''\"}'' @ [lf]]
     = concat [ascii ''{\"seq\":1}'' @ [lf], ascii ''{\"seq\":\"'' @ [0xC3, 0xA9] @ ascii ''\"}'' @ [lf]]
   \<and> pc init = NotStarted
   \<and> run_stream (sample_config [(''feed'', JStr ''continuous'')]) init
         \<lparr>ok = True, status = 200, has_body = True\<rparr>
         [ascii ''{\"seq\":1}'' @ [lf] @ ascii ''{\"seq\":\"'' @ [0xC3],
          [0xA9] @ ascii ''\"}'' @ [lf]]
       = run_stream (sample_config [(''feed'', JStr ''continuous'')]) init
         \<lparr>ok = True, status = 200, has_body = True\<rparr>
         [ascii ''{\"seq\":1}'' @ [lf], ascii ''{\"seq\":\"'' @ [0xC3, 0xA9] @ ascii ''\"}'' @ [lf]]
   \<and> snd (run_stream (sample_config [(''feed'', JStr ''continuous'')]) init
         \<lparr>ok = True, status = 200, has_body = True\<rparr>
         [ascii ''{\"seq\":1}'' @ [lf] @ ascii ''{\"seq\":\"'' @ [0xC3],
          [0xA9] @ ascii ''\"}'' @ [lf]])
       = [Request \<lparr>req_method = GET, req_query = [(''feed'', JStr ''continuous'')],
                   req_body = None\<rparr>,
          Yield (JObj [(''seq'', JNum 1)]), Yield (JObj [(''seq'', JStr [CHR 0xE9])]), Done]"
proof -
  let ?C = "sample_config [(''feed'', JStr ''continuous'')]"
  let ?r = "\<lparr>ok = True, status = 200, has_body = True\<rparr>"
  let ?cs1 = "[ascii ''{\"seq\":1}'' @ [lf] @ ascii ''{\"seq\":\"'' @ [0xC3],
          [0xA9] @ ascii ''\"}'' @ [lf]]"
  let ?cs2 = "[ascii ''{\"seq\":1}'' @ [lf], ascii ''{\"seq\":\"'' @ [0xC3, 0xA9] @ ascii ''\"}'' @ [lf]]"
  have h: "concat ?cs1 = concat ?cs2" "pc init = NotStarted"
    by (simp_all add: init_def)
  have out: "snd (run_stream ?C init ?r ?cs1)
       = [Request \<lparr>req_method = GET, req_query = [(''feed'', JStr ''continuous'')],
                   req_body = None\<rparr>,
          Yield (JObj [(''seq'', JNum 1)]), Yield (JObj [(''seq'', JStr [CHR 0xE9])]), Done]"
    by (simp add: eval_defs run_stream_def consume_alt)
  from chunking_invariance [OF h, of ?C ?r] h out show ?thesis
    by (simp only: simp_thms)
qed

end
